theory Spec2Isabelle
  imports Main "HOL-Library.AList" "HOL-Library.Multiset"
begin

section \<open>Python strings\<close>

text \<open>
  The converter works on Python \<open>str\<close> values, read from files opened in text mode (line
  ends already translated to a single line feed). A text is modelled as a \<open>string\<close>: the list
  of its code points, each below 256. On these code points \<open>is_space\<close> is what
  \<open>str.isspace\<close>, \<open>str.strip()\<close> and \<open>\s\<close> accept (the ASCII whitespace, U+0085 and
  U+00A0), \<open>is_word\<close> is what \<open>\w\<close> accepts (letters, digits and numerals of ASCII and
  Latin-1, and the underscore), and \<open>lower_char\<close> is \<open>str.lower\<close>.
\<close>

definition is_space :: "char \<Rightarrow> bool" where
  "is_space c = (let n = (of_char c :: nat) in
     (9 \<le> n \<and> n \<le> 13) \<or> (28 \<le> n \<and> n \<le> 32) \<or> n = 133 \<or> n = 160)"

definition is_word :: "char \<Rightarrow> bool" where
  "is_word c = (let n = (of_char c :: nat) in
     (48 \<le> n \<and> n \<le> 57) \<or> (65 \<le> n \<and> n \<le> 90) \<or> n = 95 \<or> (97 \<le> n \<and> n \<le> 122)
     \<or> n = 170 \<or> n = 178 \<or> n = 179 \<or> n = 181 \<or> n = 185 \<or> n = 186
     \<or> (188 \<le> n \<and> n \<le> 190) \<or> (192 \<le> n \<and> n \<le> 214) \<or> (216 \<le> n \<and> n \<le> 246)
     \<or> 248 \<le> n)"

definition lower_char :: "char \<Rightarrow> char" where
  "lower_char c = (let n = (of_char c :: nat) in
     if (65 \<le> n \<and> n \<le> 90) \<or> (192 \<le> n \<and> n \<le> 214) \<or> (216 \<le> n \<and> n \<le> 222)
     then char_of (n + 32) else c)"

definition lower :: "string \<Rightarrow> string" where
  "lower s = map lower_char s"

text \<open>\<open>s.strip(chars)\<close>: drop the characters of the set from both ends.\<close>

definition strip_chars :: "(char \<Rightarrow> bool) \<Rightarrow> string \<Rightarrow> string" where
  "strip_chars p s = rev (dropWhile p (rev (dropWhile p s)))"

text \<open>\<open>s.strip()\<close> with no argument strips whitespace.\<close>

definition strip :: "string \<Rightarrow> string" where
  "strip s = strip_chars is_space s"

text \<open>The set of \<open>strip(' "\'')\<close>: space, double quote, single quote.\<close>

definition quote_or_blank :: "char \<Rightarrow> bool" where
  "quote_or_blank c = (c = CHR '' '' \<or> c = CHR 0x22 \<or> c = CHR 0x27)"

text \<open>\<open>s.split(sep)\<close> for a one-character separator: never the empty list.\<close>

fun split_acc :: "char \<Rightarrow> string \<Rightarrow> string \<Rightarrow> string list" where
  "split_acc d acc [] = [acc]"
| "split_acc d acc (c # cs) =
     (if c = d then acc # split_acc d [] cs else split_acc d (acc @ [c]) cs)"

definition split :: "char \<Rightarrow> string \<Rightarrow> string list" where
  "split d s = split_acc d [] s"

fun startswith :: "string \<Rightarrow> string \<Rightarrow> bool" where
  "startswith s [] = True"
| "startswith [] (p # ps) = False"
| "startswith (c # cs) (p # ps) = (c = p \<and> startswith cs ps)"

text \<open>\<open>sub in s\<close>.\<close>

fun contains :: "string \<Rightarrow> string \<Rightarrow> bool" where
  "contains [] sub = (sub = [])"
| "contains (c # cs) sub = (startswith (c # cs) sub \<or> contains cs sub)"

text \<open>\<open>sep.join(xs)\<close>.\<close>

fun join :: "string \<Rightarrow> string list \<Rightarrow> string" where
  "join sep [] = []"
| "join sep [x] = x"
| "join sep (x # y # ys) = x @ sep @ join sep (y # ys)"

section \<open>The regular expressions of the converter\<close>

text \<open>
  Every pattern the converter gives to \<open>re.search\<close> and \<open>re.finditer\<close> is a
  sequence of literals, quantified character classes (some of them capture groups) and one
  lookahead. The matcher below is the backtracking matcher of \<open>re\<close> on that fragment:
  a greedy quantifier tries the longest run first, a lazy one the shortest, and the first
  way that lets the rest of the pattern match wins.
\<close>

datatype cclass =
    AnyChar      \<comment> \<open>\<open>.\<close>: any character but a newline\<close>
  | AnyCharNL    \<comment> \<open>\<open>.\<close> under \<open>re.DOTALL\<close>\<close>
  | NotQuote     \<comment> \<open>\<open>[^"]\<close>\<close>
  | Space        \<comment> \<open>\<open>\s\<close>\<close>
  | WordCh       \<comment> \<open>\<open>\w\<close>\<close>

fun in_class :: "cclass \<Rightarrow> char \<Rightarrow> bool" where
  "in_class AnyChar c = (c \<noteq> CHR 0x0A)"
| "in_class AnyCharNL c = True"
| "in_class NotQuote c = (c \<noteq> CHR 0x22)"
| "in_class Space c = is_space c"
| "in_class WordCh c = is_word c"

datatype quant = Greedy | Lazy

datatype atom =
    Lit string                \<comment> \<open>literal text\<close>
  | Rep quant nat cclass      \<comment> \<open>a class repeated at least \<open>n\<close> times: \<open>\s*\<close>, \<open>\s+\<close>\<close>
  | Grp quant nat cclass      \<comment> \<open>the same inside a capture group: \<open>(.*?)\<close>, \<open>([^"]+)\<close>, \<open>(\w+)\<close>\<close>
  | AheadDefOrEnd             \<comment> \<open>\<open>(?=def|\Z)\<close>\<close>

text \<open>
  \<open>rep_lazy k p n acc s\<close>: \<open>acc\<close> is what the quantifier has consumed so far,
  \<open>k\<close> is the rest of the pattern, given the consumed text and the remaining input.
\<close>

fun rep_lazy :: "(string \<Rightarrow> string \<Rightarrow> 'a option) \<Rightarrow> (char \<Rightarrow> bool) \<Rightarrow> nat \<Rightarrow> string \<Rightarrow> string \<Rightarrow> 'a option" where
  "rep_lazy k p n acc [] = (if n \<le> length acc then k acc [] else None)"
| "rep_lazy k p n acc (c # cs) =
     (case (if n \<le> length acc then k acc (c # cs) else None) of
        Some r \<Rightarrow> Some r
      | None \<Rightarrow> if p c then rep_lazy k p n (acc @ [c]) cs else None)"

fun rep_greedy :: "(string \<Rightarrow> string \<Rightarrow> 'a option) \<Rightarrow> (char \<Rightarrow> bool) \<Rightarrow> nat \<Rightarrow> string \<Rightarrow> string \<Rightarrow> 'a option" where
  "rep_greedy k p n acc [] = (if n \<le> length acc then k acc [] else None)"
| "rep_greedy k p n acc (c # cs) =
     (case (if p c then rep_greedy k p n (acc @ [c]) cs else None) of
        Some r \<Rightarrow> Some r
      | None \<Rightarrow> if n \<le> length acc then k acc (c # cs) else None)"

definition rep :: "quant \<Rightarrow> (string \<Rightarrow> string \<Rightarrow> 'a option) \<Rightarrow> (char \<Rightarrow> bool) \<Rightarrow> nat \<Rightarrow> string \<Rightarrow> 'a option" where
  "rep q k p n s = (case q of Greedy \<Rightarrow> rep_greedy k p n [] s | Lazy \<Rightarrow> rep_lazy k p n [] s)"

text \<open>
  \<open>match_here pat s\<close>: the pattern matched at the start of \<open>s\<close>; the result is the
  captured groups, in order, and the input left after the match.
\<close>

primrec match_here :: "atom list \<Rightarrow> string \<Rightarrow> (string list \<times> string) option" where
  "match_here [] s = Some ([], s)"
| "match_here (a # as) s =
     (case a of
        Lit l \<Rightarrow> if startswith s l then match_here as (drop (length l) s) else None
      | Rep q n c \<Rightarrow> rep q (\<lambda>txt rest. match_here as rest) (in_class c) n s
      | Grp q n c \<Rightarrow>
          rep q (\<lambda>txt rest. map_option (\<lambda>(caps, r). (txt # caps, r)) (match_here as rest))
            (in_class c) n s
      | AheadDefOrEnd \<Rightarrow> if s = [] \<or> startswith s ''def'' then match_here as s else None)"

text \<open>\<open>re.search\<close>: the match at the leftmost position that has one.\<close>

fun search :: "atom list \<Rightarrow> string \<Rightarrow> (string list \<times> string) option" where
  "search pat [] = match_here pat []"
| "search pat (c # cs) =
     (case match_here pat (c # cs) of Some r \<Rightarrow> Some r | None \<Rightarrow> search pat cs)"

text \<open>
  \<open>re.finditer\<close>: the successive non-overlapping matches, each search starting where
  the previous match ended. The one pattern it is used with consumes at least its two
  brackets, so the text left is always shorter; the scan stops should it ever not be.
\<close>

function finditer :: "atom list \<Rightarrow> string \<Rightarrow> string list list" where
  "finditer pat s =
     (case search pat s of
        None \<Rightarrow> []
      | Some (caps, rest) \<Rightarrow>
          caps # (if length rest < length s then finditer pat rest else []))"
  by pat_completeness auto
termination
  by (relation "measure (\<lambda>(pat, s). length s)") auto

declare finditer.simps [simp del]

text \<open>\<open>match.group(i)\<close> for \<open>i \<ge> 1\<close>.\<close>

definition group :: "string list \<Rightarrow> nat \<Rightarrow> string" where
  "group caps i = caps ! (i - 1)"

section \<open>Pattern extractors\<close>

text \<open>The option dictionary of \<open>_parse_option\<close>; its \<open>'type'\<close> key is the constructor.\<close>

datatype opt =
    BoolOpt (opt_name: string) (opt_desc: string) (bool_default: bool)
  | EnumOpt (opt_name: string) (opt_desc: string) (str_default: string) (opt_values: "string list")
  | StringOpt (opt_name: string) (opt_desc: string) (str_default: string)

text \<open>\<open>r'opts\.Add\((.*?)\)'\<close>\<close>

definition opts_add_re :: "atom list" where
  "opts_add_re = [Lit ''opts.Add('', Grp Lazy 0 AnyChar, Lit '')'']"

text \<open>\<open>r'BoolVariable\("([^"]+)",\s*"([^"]+)",\s*(\w+)\)'\<close>\<close>

definition bool_re :: "atom list" where
  \<open>bool_re = [Lit ''BoolVariable("'', Grp Greedy 1 NotQuote, Lit ''",'', Rep Greedy 0 Space,
     Lit ''"'', Grp Greedy 1 NotQuote, Lit ''",'', Rep Greedy 0 Space,
     Grp Greedy 1 WordCh, Lit '')'']\<close>

text \<open>\<open>r'EnumVariable\("([^"]+)",\s*"([^"]+)",\s*"([^"]+)",\s*\((.*?)\)\)'\<close>\<close>

definition enum_re :: "atom list" where
  \<open>enum_re = [Lit ''EnumVariable("'', Grp Greedy 1 NotQuote, Lit ''",'', Rep Greedy 0 Space,
     Lit ''"'', Grp Greedy 1 NotQuote, Lit ''",'', Rep Greedy 0 Space,
     Lit ''"'', Grp Greedy 1 NotQuote, Lit ''",'', Rep Greedy 0 Space,
     Lit ''('', Grp Lazy 0 AnyChar, Lit ''))'']\<close>

text \<open>\<open>r'"\s*,\s*"([^"]+)"\s*,\s*"([^"]+)"\s*,\s*"([^"]+)"'\<close>\<close>

definition str_re :: "atom list" where
  \<open>str_re = [Lit ''"'', Rep Greedy 0 Space, Lit '','', Rep Greedy 0 Space,
     Lit ''"'', Grp Greedy 1 NotQuote, Lit ''"'', Rep Greedy 0 Space, Lit '','', Rep Greedy 0 Space,
     Lit ''"'', Grp Greedy 1 NotQuote, Lit ''"'', Rep Greedy 0 Space, Lit '','', Rep Greedy 0 Space,
     Lit ''"'', Grp Greedy 1 NotQuote, Lit ''"'']\<close>

text \<open>
  The body of \<open>_parse_option\<close> from \<open>args = match.group(1)\<close> on: the three rules, tried
  in the order boolean, enumerated, string.
\<close>

definition parse_option_args :: "string \<Rightarrow> opt option" where
  "parse_option_args args =
     (case search bool_re args of
        Some (b, _) \<Rightarrow> Some (BoolOpt (group b 1) (group b 2) (lower (group b 3) = ''true''))
      | None \<Rightarrow>
     (case search enum_re args of
        Some (e, _) \<Rightarrow>
          Some (EnumOpt (group e 1) (group e 2) (group e 3)
            (map (strip_chars quote_or_blank) (split (CHR '','') (group e 4))))
      | None \<Rightarrow>
     (case search str_re args of
        Some (t, _) \<Rightarrow> Some (StringOpt (group t 1) (group t 2) (group t 3))
      | None \<Rightarrow> None)))"

definition parse_option :: "string \<Rightarrow> opt option" where
  "parse_option line =
     (case search opts_add_re line of
        None \<Rightarrow> None
      | Some (m, _) \<Rightarrow> parse_option_args (group m 1))"

text \<open>\<open>r'\[(.*?)\]'\<close>\<close>

definition list_re :: "atom list" where
  "list_re = [Lit ''['', Grp Lazy 0 AnyChar, Lit '']'']"

text \<open>The list comprehension of \<open>_extract_list_items\<close> for one matched list body.\<close>

definition list_items :: "string \<Rightarrow> string list" where
  "list_items items_str =
     map (strip_chars quote_or_blank) (filter (\<lambda>item. strip item \<noteq> []) (split (CHR '','') items_str))"

definition extract_list_items :: "string \<Rightarrow> string list" where
  "extract_list_items text = concat (map (\<lambda>m. list_items (group m 1)) (finditer list_re text))"

section \<open>The project tree\<close>

text \<open>
  The directory \<open>root_dir\<close> is a tree. A directory keeps its entries in the order in which
  the operating system lists them, which is the order \<open>glob\<close> reports them in. A path under
  \<open>root_dir\<close> is the list of its components.
\<close>

datatype node = File string | Dir "(string \<times> node) list"

type_synonym path = "string list"

definition child :: "node \<Rightarrow> string \<Rightarrow> node option" where
  "child n x = (case n of File c \<Rightarrow> None | Dir es \<Rightarrow> map_of es x)"

fun lookup :: "node \<Rightarrow> path \<Rightarrow> node option" where
  "lookup n [] = Some n"
| "lookup n (x # p) = (case child n x of None \<Rightarrow> None | Some m \<Rightarrow> lookup m p)"

text \<open>\<open>Path.exists()\<close> and \<open>Path.is_dir()\<close>.\<close>

definition exists_path :: "node \<Rightarrow> path \<Rightarrow> bool" where
  "exists_path fs p = (lookup fs p \<noteq> None)"

definition is_dir :: "node \<Rightarrow> path \<Rightarrow> bool" where
  "is_dir fs p = (case lookup fs p of Some (Dir es) \<Rightarrow> True | Some (File c) \<Rightarrow> False | None \<Rightarrow> False)"

text \<open>
  The exceptions of the file operations. The converter catches none of them: one raised
  anywhere ends the run.
\<close>

datatype pyerror = FileNotFoundError | IsADirectoryError | NotADirectoryError | FileExistsError

text \<open>
  \<open>open(p).read()\<close>: the text of the file. (For a path that runs through a regular file
  Python raises \<open>NotADirectoryError\<close> where this says \<open>FileNotFoundError\<close>; the converter
  only opens \<open>SConstruct\<close> directly under the root and files it has found to exist.)
\<close>

definition read_file :: "node \<Rightarrow> path \<Rightarrow> pyerror + string" where
  "read_file fs p =
     (case lookup fs p of
        None \<Rightarrow> Inl FileNotFoundError
      | Some (Dir es) \<Rightarrow> Inl IsADirectoryError
      | Some (File c) \<Rightarrow> Inr c)"

text \<open>
  \<open>with open(p, "w") as f: f.write(c)\<close>: the file is replaced where it stands in its
  directory, or added as the last entry; the directory must exist.
\<close>

fun write_file :: "node \<Rightarrow> path \<Rightarrow> string \<Rightarrow> pyerror + node" where
  "write_file n [] c = Inl IsADirectoryError"
| "write_file (File d) (x # p) c = Inl NotADirectoryError"
| "write_file (Dir es) [x] c =
     (case map_of es x of
        Some (Dir ds) \<Rightarrow> Inl IsADirectoryError
      | Some (File d) \<Rightarrow> Inr (Dir (AList.update x (File c) es))
      | None \<Rightarrow> Inr (Dir (AList.update x (File c) es)))"
| "write_file (Dir es) (x # y # p) c =
     (case map_of es x of
        None \<Rightarrow> Inl FileNotFoundError
      | Some n \<Rightarrow>
          (case write_file n (y # p) c of
             Inl e \<Rightarrow> Inl e
           | Inr n' \<Rightarrow> Inr (Dir (AList.update x n' es))))"

text \<open>\<open>(root_dir / x).mkdir(exist_ok=True)\<close>\<close>

definition mkdir_exist_ok :: "node \<Rightarrow> string \<Rightarrow> pyerror + node" where
  "mkdir_exist_ok fs x =
     (case fs of
        File c \<Rightarrow> Inl NotADirectoryError
      | Dir es \<Rightarrow>
          (case map_of es x of
             None \<Rightarrow> Inr (Dir (AList.update x (Dir []) es))
           | Some (Dir ds) \<Rightarrow> Inr fs
           | Some (File c) \<Rightarrow> Inl FileExistsError))"

text \<open>\<open>Path.glob("*")\<close>: the names of all entries of a directory, in listing order.\<close>

definition glob_star :: "node \<Rightarrow> path \<Rightarrow> string list" where
  "glob_star fs p = (case lookup fs p of Some (Dir es) \<Rightarrow> map fst es | Some (File c) \<Rightarrow> [] | None \<Rightarrow> [])"

text \<open>
  \<open>glob.glob(str(d / '**' / ext), recursive=True)\<close> for \<open>ext = '*' + suffix\<close>, as paths
  relative to \<open>d\<close>: \<open>d\<close> and its subdirectories in pre-order, each contributing its matching
  entries in listing order. Names starting with a dot are neither matched nor entered.
  The directory \<open>d\<close> is found by its path as written: its name is taken to hold none of
  the characters \<open>glob\<close> reads as a pattern (\<open>*\<close>, \<open>?\<close>, \<open>[\<close>), which is so for the six
  library names and is an assumption for the root path and for the names of module
  directories.
\<close>

definition hidden :: "string \<Rightarrow> bool" where
  "hidden x = startswith x ''.''"

definition endswith :: "string \<Rightarrow> string \<Rightarrow> bool" where
  "endswith x suffix = startswith (rev x) (rev suffix)"

definition matching :: "string \<Rightarrow> string list \<Rightarrow> string list" where
  "matching suffix names = filter (\<lambda>x. endswith x suffix \<and> \<not> hidden x) names"

fun glob_rec :: "string \<Rightarrow> node \<Rightarrow> path list"
  and glob_sub :: "string \<Rightarrow> (string \<times> node) list \<Rightarrow> path list" where
  "glob_rec suffix (File c) = []"
| "glob_rec suffix (Dir es) = map (\<lambda>x. [x]) (matching suffix (map fst es)) @ glob_sub suffix es"
| "glob_sub suffix [] = []"
| "glob_sub suffix ((x, n) # es) =
     (if hidden x then [] else map (\<lambda>p. x # p) (glob_rec suffix n)) @ glob_sub suffix es"

text \<open>
  The source discovery both emitters share: for each of the five patterns in turn, the
  files found, as \<open>os.path.relpath(file, str(d))\<close>.
\<close>

definition source_suffixes :: "string list" where
  "source_suffixes = [''.cpp'', ''.c'', ''.h'', ''.hpp'', ''.inc'']"

definition dir_sources :: "node \<Rightarrow> string list" where
  "dir_sources n = concat (map (\<lambda>suffix. map (join ''/'') (glob_rec suffix n)) source_suffixes)"

definition find_sources :: "node \<Rightarrow> path \<Rightarrow> string list" where
  "find_sources fs d = (case lookup fs d of None \<Rightarrow> [] | Some n \<Rightarrow> dir_sources n)"

section \<open>Collection\<close>

text \<open>
  A Python \<open>dict\<close> keeps its keys in insertion order, and assigning to a key that is
  present replaces the value where it stands: an association list under \<open>AList.update\<close>.
\<close>

definition newline :: string where
  "newline = [CHR 0x0A]"

definition add_option_line :: "string \<Rightarrow> (string \<times> opt) list \<Rightarrow> (string \<times> opt) list" where
  "add_option_line line options =
     (if startswith (strip line) ''opts.Add('' then
        (case parse_option line of
           Some option \<Rightarrow> AList.update (opt_name option) option options
         | None \<Rightarrow> options)
      else options)"

definition parse_sconstruct :: "node \<Rightarrow> pyerror + (string \<times> opt) list" where
  "parse_sconstruct fs =
     (case read_file fs [''SConstruct''] of
        Inl e \<Rightarrow> Inl e
      | Inr content \<Rightarrow> Inr (fold add_option_line (split (CHR 0x0A) content) []))"

record platform_config =
  p_name :: string
  p_defines :: "string list"
  p_libs :: "string list"
  p_includes :: "string list"
  p_flags :: "string list"

text \<open>\<open>r'def\s+get_flags\(\):\s*(.*?)(?=def|\Z)'\<close> and its twin for \<open>get_libs\<close>, both under \<open>re.DOTALL\<close>.\<close>

definition get_flags_re :: "atom list" where
  "get_flags_re = [Lit ''def'', Rep Greedy 1 Space, Lit ''get_flags():'', Rep Greedy 0 Space,
     Grp Lazy 0 AnyCharNL, AheadDefOrEnd]"

definition get_libs_re :: "atom list" where
  "get_libs_re = [Lit ''def'', Rep Greedy 1 Space, Lit ''get_libs():'', Rep Greedy 0 Space,
     Grp Lazy 0 AnyCharNL, AheadDefOrEnd]"

definition function_items :: "atom list \<Rightarrow> string \<Rightarrow> string list" where
  "function_items re content =
     (case search re content of
        None \<Rightarrow> []
      | Some (m, rest) \<Rightarrow> extract_list_items (group m 1))"

definition parse_platform_detect :: "node \<Rightarrow> string \<Rightarrow> path \<Rightarrow> pyerror + platform_config" where
  "parse_platform_detect fs platform detect_py =
     (case read_file fs detect_py of
        Inl e \<Rightarrow> Inl e
      | Inr content \<Rightarrow>
          Inr \<lparr> p_name = platform, p_defines = [],
                p_libs = function_items get_libs_re content,
                p_includes = [],
                p_flags = function_items get_flags_re content \<rparr>)"

fun parse_platform_loop ::
  "node \<Rightarrow> string list \<Rightarrow> (string \<times> platform_config) list \<Rightarrow> pyerror + (string \<times> platform_config) list" where
  "parse_platform_loop fs [] configs = Inr configs"
| "parse_platform_loop fs (platform # rest) configs =
     (if \<not> is_dir fs [''platform'', platform] then parse_platform_loop fs rest configs
      else if \<not> exists_path fs [''platform'', platform, ''detect.py''] then
        parse_platform_loop fs rest configs
      else
        (case parse_platform_detect fs platform [''platform'', platform, ''detect.py''] of
           Inl e \<Rightarrow> Inl e
         | Inr config \<Rightarrow> parse_platform_loop fs rest (AList.update platform config configs)))"

definition parse_platform_configs :: "node \<Rightarrow> pyerror + (string \<times> platform_config) list" where
  "parse_platform_configs fs = parse_platform_loop fs (glob_star fs [''platform'']) []"

record module_config =
  m_name :: string
  m_sources :: "string list"
  m_deps :: "string list"
  m_defines :: "string list"
  m_includes :: "string list"

text \<open>The two loops of \<open>_parse_module\<close> over the lines of the manifest.\<close>

definition anchored_items :: "string \<Rightarrow> string list \<Rightarrow> string list" where
  "anchored_items anchor lines =
     concat (map extract_list_items (filter (\<lambda>line. contains line anchor) lines))"

definition parse_module :: "node \<Rightarrow> string \<Rightarrow> path \<Rightarrow> pyerror + module_config" where
  "parse_module fs module module_path =
     (if exists_path fs (module_path @ [''SCsub'']) then
        (case read_file fs (module_path @ [''SCsub'']) of
           Inl e \<Rightarrow> Inl e
         | Inr content \<Rightarrow>
             Inr \<lparr> m_name = module,
                   m_sources = anchored_items ''env.add_source_files'' (split (CHR 0x0A) content),
                   m_deps = anchored_items ''env.Depends'' (split (CHR 0x0A) content),
                   m_defines = [], m_includes = [] \<rparr>)
      else Inr \<lparr> m_name = module, m_sources = [], m_deps = [], m_defines = [], m_includes = [] \<rparr>)"

fun parse_modules_loop ::
  "node \<Rightarrow> string list \<Rightarrow> (string \<times> module_config) list \<Rightarrow> pyerror + (string \<times> module_config) list" where
  "parse_modules_loop fs [] modules = Inr modules"
| "parse_modules_loop fs (module # rest) modules =
     (if \<not> is_dir fs [''modules'', module] then parse_modules_loop fs rest modules
      else
        (case parse_module fs module [''modules'', module] of
           Inl e \<Rightarrow> Inl e
         | Inr config \<Rightarrow> parse_modules_loop fs rest (AList.update module config modules)))"

definition parse_modules :: "node \<Rightarrow> pyerror + (string \<times> module_config) list" where
  "parse_modules fs = parse_modules_loop fs (glob_star fs [''modules'']) []"

section \<open>Emission\<close>

subsection \<open>The lines of each generated file\<close>

definition option_lines :: "opt \<Rightarrow> string list" where
  \<open>option_lines opt =
     (case opt of
        BoolOpt name desc dflt \<Rightarrow>
          [''option('' @ name @ '' "'' @ desc @ ''" '' @ (if dflt then ''TRUE'' else ''FALSE'') @ '')'']
      | StringOpt name desc dflt \<Rightarrow>
          [''set('' @ name @ '' "'' @ dflt @ ''" CACHE STRING "'' @ desc @ ''")'']
      | EnumOpt name desc dflt vals \<Rightarrow>
          [''set('' @ name @ '' "'' @ dflt @ ''" CACHE STRING "'' @ desc @ ''")'',
           ''set_property(CACHE '' @ name @ '' PROPERTY STRINGS '' @ join '';'' vals @ '')''])\<close>

definition root_content :: "(string \<times> opt) list \<Rightarrow> string list" where
  "root_content options =
     [''cmake_minimum_required(VERSION 3.20)'',
      ''project(godot)'',
      [],
      ''# Global settings'',
      ''set(CMAKE_CXX_STANDARD 17)'',
      ''set(CMAKE_CXX_STANDARD_REQUIRED ON)'',
      ''set(CMAKE_POSITION_INDEPENDENT_CODE ON)'',
      [],
      ''# Options'']
     @ concat (map (\<lambda>(name, opt). option_lines opt) options)
     @ [[],
      ''# Platform detection'',
      ''if(WIN32)'',
      ''    set(PLATFORM_NAME windows)'',
      ''elseif(APPLE)'',
      ''    set(PLATFORM_NAME macos)'',
      ''elseif(UNIX)'',
      ''    set(PLATFORM_NAME linuxbsd)'',
      ''endif()'',
      [],
      ''# Include platform-specific configuration'',
      ''include(cmake/platform_${PLATFORM_NAME}.cmake)'',
      [],
      ''# Add subdirectories'',
      ''add_subdirectory(core)'',
      ''add_subdirectory(drivers)'',
      ''add_subdirectory(main)'',
      ''add_subdirectory(modules)'',
      ''add_subdirectory(platform)'',
      ''add_subdirectory(scene)'',
      ''add_subdirectory(servers)'',
      [],
      ''# Main executable'',
      ''add_executable(godot'',
      ''    main/main.cpp'',
      '')'',
      [],
      ''target_link_libraries(godot'',
      ''    PRIVATE'',
      ''    core'',
      ''    drivers'',
      ''    main'',
      ''    platform'',
      ''    scene'',
      ''    servers'',
      ''    ${CMAKE_THREAD_LIBS_INIT}'',
      ''    ${OPENGL_LIBRARIES}'',
      ''    ${X11_LIBRARIES}'',
      ''    ${ZLIB_LIBRARIES}'',
      '')'']"

definition indent4 :: "string \<Rightarrow> string" where
  "indent4 x = ''    '' @ x"

definition indent8 :: "string \<Rightarrow> string" where
  "indent8 x = ''        '' @ x"

definition platform_content :: "string \<Rightarrow> platform_config \<Rightarrow> string list" where
  "platform_content platform config =
     [''# Platform configuration for '' @ platform, [], ''# Compiler flags'']
     @ (if p_flags config \<noteq> [] then
          [''add_compile_options(''] @ map indent4 (p_flags config) @ ['')'', []]
        else [])
     @ (if p_defines config \<noteq> [] then
          [''add_compile_definitions(''] @ map indent4 (p_defines config) @ ['')'', []]
        else [])
     @ (if p_libs config \<noteq> [] then
          [''target_link_libraries(godot PRIVATE''] @ map indent4 (p_libs config) @ ['')'']
        else [])"

text \<open>
  A block as the platform file shows it: the opening line, each item indented by four
  spaces, the closing parenthesis and what follows it; no line at all when there is no item.
\<close>

definition rendered_block :: "string \<Rightarrow> string list \<Rightarrow> string list \<Rightarrow> string list" where
  "rendered_block opening items after =
     (if items = [] then [] else opening # map indent4 items @ '')'' # after)"

text \<open>
  The library file. In \<open>_generate_core_cmake_files\<close> the lines that follow the warning (an
  empty line, the \<open>target_include_directories\<close> block and the \<open>if(UNIX AND NOT APPLE)\<close>
  block of compile definitions) stand in the \<open>else\<close> branch as bare string expressions;
  no call appends them to \<open>content\<close>, and the bracket that closes them has no opening one.
  The model follows the statements that are there: after the source list and the
  \<open>add_library\<close> line, present when sources were found, nothing more is added.
\<close>

definition core_content :: "string \<Rightarrow> string list \<Rightarrow> string list" where
  "core_content lib sources =
     [''# '' @ lib @ '' library'', [], ''set(LIB_SOURCES'']
     @ (if sources \<noteq> [] then
          sources @ ['')'', [], ''add_library('' @ lib @ '' STATIC ${LIB_SOURCES})'']
        else [])"

definition umbrella_content :: "(string \<times> module_config) list \<Rightarrow> string list" where
  "umbrella_content modules =
     [''# Godot modules'', []] @ map (\<lambda>(module, config). ''add_subdirectory('' @ module @ '')'') modules"

definition module_content :: "string \<Rightarrow> module_config \<Rightarrow> string list \<Rightarrow> string list" where
  "module_content module config sources =
     [''# '' @ module @ '' module'', [], ''set(MODULE_SOURCES'']
     @ (if sources \<noteq> [] then
          sources @ ['')'', [], ''add_library('' @ module @ '' STATIC ${MODULE_SOURCES})'', []]
        else [])
     @ [''target_include_directories('' @ module,
        ''    PUBLIC'',
        ''        ${CMAKE_CURRENT_SOURCE_DIR}'',
        ''        ${CMAKE_SOURCE_DIR}'',
        '')'',
        []]
     @ (if m_deps config \<noteq> [] then
          [''target_link_libraries('' @ module, ''    PRIVATE''] @ map indent8 (m_deps config) @ ['')'']
        else [])"

subsection \<open>Running the emitters\<close>

text \<open>
  What the converter prints, one constructor for each \<open>print\<close> of the source:
  \<^item> \<open>Converting\<close>: \<open>Converting SCons to CMake...\<close>
  \<^item> \<open>FoundSource m r\<close>: \<open>Found source file for module m: r\<close>
  \<^item> \<open>NoModuleSources m\<close>: \<open>Warning: No source files found for module m in\<close> its directory
  \<^item> \<open>NoLibrarySources l\<close>: \<open>Warning: No source files found for library l in\<close> its directory
  \<^item> \<open>Usage\<close>: \<open>Usage: scons_to_cmake.py <godot_root_dir>\<close>
  \<^item> \<open>NotADirectory d\<close>: \<open>Error: d is not a directory\<close>
  \<^item> \<open>Finished\<close>: \<open>Done! CMake files have been generated.\<close>
\<close>

datatype message =
    Converting
  | FoundSource string string
  | NoModuleSources string
  | NoLibrarySources string
  | Usage
  | NotADirectory string
  | Finished

text \<open>
  A run of a piece of the converter: the tree it leaves, what it printed, and the exception
  that ended it, if one did. What was written before an exception stays written.
\<close>

type_synonym run = "node \<times> message list \<times> pyerror option"

definition say :: "message list \<Rightarrow> node \<Rightarrow> run" where
  "say ms fs = (fs, ms, None)"

definition write_step :: "path \<Rightarrow> string \<Rightarrow> node \<Rightarrow> run" where
  "write_step p c fs =
     (case write_file fs p c of Inl e \<Rightarrow> (fs, [], Some e) | Inr fs' \<Rightarrow> (fs', [], None))"

definition and_then :: "run \<Rightarrow> (node \<Rightarrow> run) \<Rightarrow> run" where
  "and_then r f =
     (case r of
        (fs, out, Some e) \<Rightarrow> (fs, out, Some e)
      | (fs, out, None) \<Rightarrow> (case f fs of (fs', out', e) \<Rightarrow> (fs', out @ out', e)))"

fun for_each :: "('a \<Rightarrow> node \<Rightarrow> run) \<Rightarrow> 'a list \<Rightarrow> node \<Rightarrow> run" where
  "for_each body [] fs = (fs, [], None)"
| "for_each body (x # xs) fs = and_then (body x fs) (for_each body xs)"

definition generate_root_cmakelists :: "(string \<times> opt) list \<Rightarrow> node \<Rightarrow> run" where
  "generate_root_cmakelists options fs =
     write_step [''CMakeLists.txt''] (join newline (root_content options)) fs"

definition generate_platform_file :: "string \<times> platform_config \<Rightarrow> node \<Rightarrow> run" where
  "generate_platform_file pc fs =
     write_step [''cmake'', ''platform_'' @ fst pc @ ''.cmake'']
       (join newline (platform_content (fst pc) (snd pc))) fs"

definition generate_platform_cmake_files :: "(string \<times> platform_config) list \<Rightarrow> node \<Rightarrow> run" where
  "generate_platform_cmake_files configs fs =
     (case mkdir_exist_ok fs ''cmake'' of
        Inl e \<Rightarrow> (fs, [], Some e)
      | Inr fs' \<Rightarrow> for_each generate_platform_file configs fs')"

definition core_libs :: "string list" where
  "core_libs = [''core'', ''drivers'', ''main'', ''platform'', ''scene'', ''servers'']"

definition generate_core_lib :: "string \<Rightarrow> node \<Rightarrow> run" where
  "generate_core_lib lib fs =
     (if \<not> exists_path fs [lib] then (fs, [], None)
      else
        and_then
          (say (if find_sources fs [lib] \<noteq> [] then [] else [NoLibrarySources lib]) fs)
          (write_step [lib, ''CMakeLists.txt'']
             (join newline (core_content lib (map indent4 (find_sources fs [lib]))))))"

definition generate_core_cmake_files :: "node \<Rightarrow> run" where
  "generate_core_cmake_files fs = for_each generate_core_lib core_libs fs"

definition generate_module_file :: "string \<times> module_config \<Rightarrow> node \<Rightarrow> run" where
  "generate_module_file mc fs =
     and_then
       (say (if find_sources fs [''modules'', fst mc] \<noteq> [] then
               map (FoundSource (fst mc)) (find_sources fs [''modules'', fst mc])
             else [NoModuleSources (fst mc)]) fs)
       (write_step [''modules'', fst mc, ''CMakeLists.txt'']
          (join newline
             (module_content (fst mc) (snd mc) (map indent4 (find_sources fs [''modules'', fst mc])))))"

definition generate_module_cmake_files :: "(string \<times> module_config) list \<Rightarrow> node \<Rightarrow> run" where
  "generate_module_cmake_files modules fs =
     and_then
       (write_step [''modules'', ''CMakeLists.txt''] (join newline (umbrella_content modules)) fs)
       (for_each generate_module_file modules)"

section \<open>The orchestrator\<close>

definition convert :: "node \<Rightarrow> run" where
  "convert fs =
     (case parse_sconstruct fs of
        Inl e \<Rightarrow> (fs, [Converting], Some e)
      | Inr scons_options \<Rightarrow>
     (case parse_platform_configs fs of
        Inl e \<Rightarrow> (fs, [Converting], Some e)
      | Inr platform_configs \<Rightarrow>
     (case parse_modules fs of
        Inl e \<Rightarrow> (fs, [Converting], Some e)
      | Inr modules \<Rightarrow>
          and_then (and_then (and_then (and_then (say [Converting] fs)
            (generate_root_cmakelists scons_options))
            (generate_platform_cmake_files platform_configs))
            generate_core_cmake_files)
            (generate_module_cmake_files modules))))"

text \<open>
  \<open>main\<close> with \<open>os.sys.exit\<close>: \<open>argv\<close> is \<open>os.sys.argv\<close>, \<open>disk\<close> is what the path
  \<open>argv[1]\<close> names, if anything. The result is the exit status of the process (an exception
  nobody catches ends it with status 1), what the path names afterwards, and what was printed.
\<close>

definition main :: "string list \<Rightarrow> node option \<Rightarrow> nat \<times> node option \<times> message list" where
  "main argv disk =
     (if length argv \<noteq> 2 then (1, disk, [Usage])
      else
        (case disk of
           None \<Rightarrow> (1, disk, [NotADirectory (argv ! 1)])
         | Some (File c) \<Rightarrow> (1, disk, [NotADirectory (argv ! 1)])
         | Some (Dir es) \<Rightarrow>
             (case convert (Dir es) of
                (fs', out, Some e) \<Rightarrow> (1, Some fs', out)
              | (fs', out, None) \<Rightarrow> (0, Some fs', out @ [Finished]))))"

section \<open>A small project\<close>

text \<open>
  One option line, the platform \<open>linuxbsd\<close> with a detection file beside a directory
  \<open>tools\<close> without one, the module \<open>mymodule\<close> with two sources and a manifest beside the
  empty module directory \<open>bare\<close>, and the library \<open>core\<close> with one source.
\<close>

definition example_tree :: node where
  \<open>example_tree = Dir
     [(''SConstruct'', File ''opts.Add(BoolVariable("builtin_freetype", "Use builtin FreeType library", True))''),
      (''platform'', Dir
         [(''linuxbsd'', Dir [(''detect.py'', File ''def get_libs():\<newline>    return ["GL", "X11"]'')]),
          (''tools'', Dir [])]),
      (''modules'', Dir
         [(''mymodule'', Dir
            [(''b.cpp'', File []), (''a.cpp'', File []),
             (''SCsub'', File ''env.Depends(lib, ["core"])'')]),
          (''bare'', Dir [])]),
      (''core'', Dir [(''x.cpp'', File [])])]\<close>

section \<open>Auxiliary definitions\<close>

text \<open>
  What is left of \<open>\[(.*?)\]\<close> and of \<open>opts\.Add\((.*?)\)\<close> after the lazy group: the
  closing bracket, the closing parenthesis. Both are the continuation \<open>match_here\<close> hands to
  \<open>rep_lazy\<close> for the group.
\<close>

definition close_k :: "string \<Rightarrow> string \<Rightarrow> (string list \<times> string) option" where
  "close_k = (\<lambda>txt rest. map_option (\<lambda>(caps, r). (txt # caps, r)) (match_here [Lit '']''] rest))"

definition paren_k :: "string \<Rightarrow> string \<Rightarrow> (string list \<times> string) option" where
  "paren_k = (\<lambda>txt rest. map_option (\<lambda>(caps, r). (txt # caps, r)) (match_here [Lit '')''] rest))"

section \<open>Directory-listing order\<close>




text \<open>The second step: the matches of one pattern in the directories of a walk.\<close>

definition listed :: "string \<Rightarrow> (path \<times> (string \<times> node) list) list \<Rightarrow> path list" where
  "listed suffix ws = concat (map (\<lambda>(p, es). map (\<lambda>x. p @ [x]) (matching suffix (map fst es))) ws)"




section \<open>What a run can see of the tree\<close>

text \<open>
  The converter reads a path in one of three ways: whether it exists, whether it is a
  directory, what text it holds. \<open>kind_of\<close> is the answer to all three.
\<close>

datatype kind = Absent | IsDir | IsFile string

definition kind_of :: "node \<Rightarrow> path \<Rightarrow> kind" where
  "kind_of fs p = (case lookup fs p of None \<Rightarrow> Absent | Some (Dir es) \<Rightarrow> IsDir | Some (File c) \<Rightarrow> IsFile c)"

text \<open>The subdirectories of a directory, in listing order: what both collection loops walk.\<close>

definition subdirs :: "node \<Rightarrow> path \<Rightarrow> string list" where
  "subdirs fs q = filter (\<lambda>x. is_dir fs (q @ [x])) (glob_star fs q)"

text \<open>
  The paths the emitters write: files named \<open>CMakeLists.txt\<close>, and the directory \<open>cmake\<close>
  with what is in it.
\<close>

definition generated :: "path \<Rightarrow> bool" where
  "generated p = (p \<noteq> [] \<and> (last p = ''CMakeLists.txt'' \<or> hd p = ''cmake''))"

text \<open>
  \<open>agree S fs fs'\<close>: the two trees answer alike on every path outside \<open>S\<close>, list the same
  platform and module directories, and give the same sources for every directory outside
  \<open>cmake\<close>.
\<close>

definition agree :: "path set \<Rightarrow> node \<Rightarrow> node \<Rightarrow> bool" where
  "agree S fs fs' =
     ((\<forall>q. q \<in> S \<or> kind_of fs' q = kind_of fs q)
      \<and> subdirs fs' [''platform''] = subdirs fs [''platform'']
      \<and> subdirs fs' [''modules''] = subdirs fs [''modules'']
      \<and> (\<forall>x d. x = ''cmake'' \<or> find_sources fs' (x # d) = find_sources fs (x # d)))"

section \<open>Properties of the matcher\<close>

text \<open>
  A match of a pattern runs over every literal of the pattern, so the characters of the
  literal are characters of the text.
\<close>

lemma startswith_set: "startswith s l \<Longrightarrow> set l \<subseteq> set s"
  by (induction s l rule: startswith.induct) auto

lemma rep_lazy_rest:
  "rep_lazy k p n acc s = Some r \<Longrightarrow> \<exists>txt rest. k txt rest = Some r \<and> set rest \<subseteq> set s"
proof (induction s arbitrary: acc)
  case Nil
  then show ?case by (auto split: if_splits)
next
  case (Cons c s)
  show ?case
  proof (cases "n \<le> length acc \<and> k acc (c # s) \<noteq> None")
    case True
    with Cons.prems have "k acc (c # s) = Some r" by auto
    then show ?thesis by blast
  next
    case False
    with Cons.prems have "rep_lazy k p n (acc @ [c]) s = Some r"
      by (auto split: if_splits option.splits)
    from Cons.IH [OF this] show ?thesis by auto
  qed
qed

lemma rep_greedy_rest:
  "rep_greedy k p n acc s = Some r \<Longrightarrow> \<exists>txt rest. k txt rest = Some r \<and> set rest \<subseteq> set s"
proof (induction s arbitrary: acc)
  case Nil
  then show ?case by (auto split: if_splits)
next
  case (Cons c s)
  show ?case
  proof (cases "p c \<and> rep_greedy k p n (acc @ [c]) s \<noteq> None")
    case True
    with Cons.prems have "rep_greedy k p n (acc @ [c]) s = Some r" by auto
    from Cons.IH [OF this] show ?thesis by auto
  next
    case False
    with Cons.prems have "k acc (c # s) = Some r"
      by (auto split: if_splits option.splits)
    then show ?thesis by blast
  qed
qed

lemma rep_rest:
  "rep q k p n s = Some r \<Longrightarrow> \<exists>txt rest. k txt rest = Some r \<and> set rest \<subseteq> set s"
  by (cases q) (auto simp: rep_def dest: rep_lazy_rest rep_greedy_rest)

lemma match_here_literal:
  "match_here pat s \<noteq> None \<Longrightarrow> Lit l \<in> set pat \<Longrightarrow> set l \<subseteq> set s"
proof (induction pat arbitrary: s)
  case Nil
  then show ?case by simp
next
  case (Cons a pat)
  show ?case
  proof (cases a)
    case (Lit l')
    with Cons.prems(1) have sw: "startswith s l'" and m: "match_here pat (drop (length l') s) \<noteq> None"
      by (auto split: if_splits)
    show ?thesis
    proof (cases "l = l'")
      case True
      with sw show ?thesis by (simp add: startswith_set)
    next
      case False
      with Cons.prems(2) Lit have "Lit l \<in> set pat" by simp
      from Cons.IH [OF m this] show ?thesis
        using set_drop_subset by fastforce
    qed
  next
    case (Rep q n c)
    with Cons.prems(1) obtain r where "rep q (\<lambda>txt rest. match_here pat rest) (in_class c) n s = Some r"
      by auto
    from rep_rest [OF this] obtain rest where "match_here pat rest = Some r" and s: "set rest \<subseteq> set s"
      by blast
    then have m: "match_here pat rest \<noteq> None" by simp
    from Cons.prems(2) Rep have "Lit l \<in> set pat" by simp
    from Cons.IH [OF m this] s show ?thesis by blast
  next
    case (Grp q n c)
    with Cons.prems(1) obtain r where
      "rep q (\<lambda>txt rest. map_option (\<lambda>(caps, r). (txt # caps, r)) (match_here pat rest)) (in_class c) n s = Some r"
      by auto
    from rep_rest [OF this] obtain grp rest where
      "map_option (\<lambda>(caps, r). (grp # caps, r)) (match_here pat rest) = Some r" and s: "set rest \<subseteq> set s"
      by blast
    then have m: "match_here pat rest \<noteq> None" by auto
    from Cons.prems(2) Grp have "Lit l \<in> set pat" by simp
    from Cons.IH [OF m this] s show ?thesis by blast
  next
    case AheadDefOrEnd
    with Cons.prems(1) have m: "match_here pat s \<noteq> None"
      by (auto split: if_splits)
    from Cons.prems(2) AheadDefOrEnd have "Lit l \<in> set pat" by simp
    from Cons.IH [OF m this] show ?thesis .
  qed
qed

lemma search_literal:
  "search pat s \<noteq> None \<Longrightarrow> Lit l \<in> set pat \<Longrightarrow> set l \<subseteq> set s"
proof (induction s)
  case Nil
  then show ?case using match_here_literal [of pat "[]" l] by simp
next
  case (Cons c s)
  show ?case
  proof (cases "match_here pat (c # s)")
    case None
    with Cons show ?thesis by auto
  next
    case (Some r)
    then show ?thesis using match_here_literal [of pat "c # s" l] Cons.prems(2) by simp
  qed
qed

section \<open>Properties of the extractors\<close>

lemma paren_k_simps [simp]:
  "paren_k txt [] = None"
  "paren_k txt (c # cs) = (if c = CHR '')'' then Some ([txt], cs) else None)"
  by (simp_all add: paren_k_def)

lemma rep_lazy_paren:
  "rep_lazy paren_k p 0 acc s = Some (caps, rest) \<Longrightarrow> CHR '')'' \<notin> set acc \<Longrightarrow>
   \<exists>args. caps = [args] \<and> CHR '')'' \<notin> set args"
  by (induction s arbitrary: acc) (auto split: if_splits option.splits)

lemma match_here_opts_add_re:
  "match_here opts_add_re s =
     (if startswith s ''opts.Add('' then rep_lazy paren_k (in_class AnyChar) 0 [] (drop (length ''opts.Add('') s)
      else None)"
  by (simp add: opts_add_re_def rep_def paren_k_def)

lemma match_here_opts_add:
  "match_here opts_add_re s = Some (caps, rest) \<Longrightarrow> \<exists>args. caps = [args] \<and> CHR '')'' \<notin> set args"
  by (auto simp: match_here_opts_add_re split: if_splits dest: rep_lazy_paren)

lemma search_opts_add:
  "search opts_add_re s = Some (caps, rest) \<Longrightarrow> \<exists>args. caps = [args] \<and> CHR '')'' \<notin> set args"
proof (induction s)
  case Nil
  then show ?case by (simp add: match_here_opts_add)
next
  case (Cons c s)
  then show ?case by (auto split: option.splits dest: match_here_opts_add)
qed

lemma parse_option_args_no_paren:
  assumes "CHR '')'' \<notin> set args"
  shows "search bool_re args = None" "search enum_re args = None"
proof -
  have b: "Lit '')'' \<in> set bool_re" by (simp add: bool_re_def)
  show "search bool_re args = None"
  proof (rule ccontr)
    assume "search bool_re args \<noteq> None"
    from search_literal [OF this b] assms show False by simp
  qed
  have e: "Lit ''))'' \<in> set enum_re" by (simp add: enum_re_def)
  show "search enum_re args = None"
  proof (rule ccontr)
    assume "search enum_re args \<noteq> None"
    from search_literal [OF this e] assms show False by simp
  qed
qed

lemma parse_option_only_strings:
  "parse_option line = Some option \<Longrightarrow> \<exists>name desc dflt. option = StringOpt name desc dflt"
proof -
  assume a: "parse_option line = Some option"
  then obtain m r where s: "search opts_add_re line = Some (m, r)"
    and o: "parse_option_args (group m 1) = Some option"
    by (auto simp: parse_option_def split: option.splits)
  from search_opts_add [OF s] obtain args where "m = [args]" "CHR '')'' \<notin> set args"
    by auto
  then have "CHR '')'' \<notin> set (group m 1)" by (simp add: group_def)
  from parse_option_args_no_paren [OF this] o show ?thesis
    by (auto simp: parse_option_args_def split: option.splits)
qed

text \<open>
  Claim C1. The comment at the head of \<open>_parse_option\<close> gives the line
  \<open>opts.Add(BoolVariable("builtin_freetype", "Use builtin FreeType library", True))\<close> as the
  example of what it parses, and the claim says a boolean declaration is returned with the
  name, description and default written in it. On that very line the function returns
  nothing: the lazy group of \<open>opts\.Add\((.*?)\)\<close> stops at the first closing parenthesis,
  so \<open>args\<close> never holds the parenthesis the boolean and the enumerated rules end with
  (\<open>parse_option_only_strings\<close>: whatever the line, only the string rule can answer).
\<close>

theorem parse_option_documented_example:
  \<open>parse_option ''opts.Add(BoolVariable("builtin_freetype", "Use builtin FreeType library", True))'' = None\<close>
  by code_simp

subsection \<open>Bracketed lists\<close>

lemma close_k_simps [simp]:
  "close_k txt [] = None"
  "close_k txt (c # cs) = (if c = CHR '']'' then Some ([txt], cs) else None)"
  by (simp_all add: close_k_def)

lemma match_here_list_re:
  "match_here list_re [] = None"
  "match_here list_re (c # cs) =
     (if c = CHR ''['' then rep_lazy close_k (in_class AnyChar) 0 [] cs else None)"
  by (simp_all add: list_re_def rep_def close_k_def)

lemma rep_lazy_close_span:
  "CHR '']'' \<notin> set body \<Longrightarrow> CHR 0x0A \<notin> set body \<Longrightarrow>
   rep_lazy close_k (in_class AnyChar) 0 acc (body @ CHR '']'' # post) = Some ([acc @ body], post)"
  by (induction body arbitrary: acc) auto

lemma rep_lazy_close_none:
  "CHR '']'' \<notin> set line \<Longrightarrow> post = [] \<or> hd post = CHR 0x0A \<Longrightarrow>
   rep_lazy close_k (in_class AnyChar) 0 acc (line @ post) = None"
proof (induction line arbitrary: acc)
  case Nil
  then show ?case by (cases post) auto
next
  case (Cons c line)
  then show ?case by auto
qed

lemma rep_lazy_close_shorter:
  "rep_lazy close_k p n acc s = Some (caps, rest) \<Longrightarrow> length rest < length s"
  by (induction s arbitrary: acc) (auto split: if_splits option.splits intro: less_SucI)

lemma search_list_re_skip:
  "CHR ''['' \<notin> set pre \<Longrightarrow> search list_re (pre @ s) = search list_re s"
  by (induction pre) (auto simp: match_here_list_re)

lemma search_list_re_none:
  "CHR ''['' \<notin> set s \<Longrightarrow> search list_re s = None"
  by (induction s) (auto simp: match_here_list_re)

lemma search_list_re_shorter:
  "search list_re s = Some (caps, rest) \<Longrightarrow> length rest < length s"
proof (induction s)
  case Nil
  then show ?case by (simp add: match_here_list_re)
next
  case (Cons c s)
  show ?case
  proof (cases "match_here list_re (c # s)")
    case None
    with Cons show ?thesis by fastforce
  next
    case (Some r)
    with Cons.prems have "match_here list_re (c # s) = Some (caps, rest)" by simp
    then have "length rest < length s"
      by (auto simp: match_here_list_re split: if_splits dest: rep_lazy_close_shorter)
    then show ?thesis by simp
  qed
qed

lemma finditer_list_re:
  "finditer list_re s =
     (case search list_re s of None \<Rightarrow> [] | Some (caps, rest) \<Rightarrow> caps # finditer list_re rest)"
  by (subst finditer.simps) (auto split: option.splits dest: search_list_re_shorter)

lemma finditer_list_re_span:
  assumes "CHR ''['' \<notin> set pre" "CHR '']'' \<notin> set body" "CHR 0x0A \<notin> set body"
  shows "finditer list_re (pre @ CHR ''['' # body @ CHR '']'' # post) = [body] # finditer list_re post"
proof -
  have "search list_re (pre @ CHR ''['' # body @ CHR '']'' # post) = Some ([body], post)"
    using assms by (simp add: search_list_re_skip match_here_list_re rep_lazy_close_span)
  then show ?thesis by (subst finditer_list_re) simp
qed

lemma finditer_list_re_open:
  assumes "CHR ''['' \<notin> set pre" "CHR '']'' \<notin> set line" "post = [] \<or> hd post = CHR 0x0A"
  shows "finditer list_re (pre @ CHR ''['' # line @ post) = finditer list_re (line @ post)"
proof -
  have "search list_re (pre @ CHR ''['' # line @ post) = search list_re (line @ post)"
    using assms by (simp add: search_list_re_skip match_here_list_re rep_lazy_close_none)
  then show ?thesis
    by (subst finditer_list_re, subst (2) finditer_list_re) simp
qed

lemma split_acc_append:
  "split_acc d acc (a @ d # b) = split_acc d acc a @ split_acc d [] b"
  by (induction a arbitrary: acc) auto

lemma split_acc_single: "d \<notin> set t \<Longrightarrow> split_acc d acc t = [acc @ t]"
  by (induction t arbitrary: acc) auto

lemma list_items_append: "list_items (a @ CHR '','' # b) = list_items a @ list_items b"
  by (simp add: list_items_def split_def split_acc_append)

lemma list_items_token:
  "CHR '','' \<notin> set t \<Longrightarrow>
   list_items t = (if strip t = [] then [] else [strip_chars quote_or_blank t])"
  by (simp add: list_items_def split_def split_acc_single)

text \<open>
  Claim C4, as the code has it. The claim says elements are trimmed of surrounding whitespace
  and that an empty element contributes nothing. The code trims spaces and the two quote
  characters only, and it skips the tokens that are empty or all whitespace before trimming;
  a token of quotes alone is kept and yields the empty string. A list is found only when its
  closing bracket comes before the end of the line. The five facts below determine the result
  for every text:
  \<^item> a text without an opening bracket has no items;
  \<^item> at the first opening bracket, when the first closing bracket after it comes before any
    line break, the items of that span come first and the scan goes on after the closing
    bracket;
  \<^item> at the first opening bracket, when the line (or the text) ends before a closing bracket,
    the scan goes on just after the opening bracket;
  \<^item> the items of a span are those of its comma-separated tokens, in order;
  \<^item> a token of whitespace only has no item, any other token has one: the token without its
    leading and trailing spaces and quotes. Whitespace is what \<open>str.strip()\<close> takes as such:
    the code points 9 to 13, 28 to 32, 133 and 160.
\<close>

theorem extract_list_items_spans:
  "(CHR ''['' \<notin> set inp \<longrightarrow> extract_list_items inp = [])
   \<and> (CHR ''['' \<notin> set pre \<and> CHR '']'' \<notin> set body \<and> CHR 0x0A \<notin> set body \<longrightarrow>
        extract_list_items (pre @ ''['' @ body @ '']'' @ post) = list_items body @ extract_list_items post)
   \<and> (CHR ''['' \<notin> set pre \<and> CHR '']'' \<notin> set line \<and> (post = [] \<or> hd post = CHR 0x0A) \<longrightarrow>
        extract_list_items (pre @ ''['' @ line @ post) = extract_list_items (line @ post))
   \<and> list_items (a @ '','' @ b) = list_items a @ list_items b
   \<and> (CHR '','' \<notin> set t \<longrightarrow>
        list_items t = (if strip t = [] then [] else [strip_chars quote_or_blank t]))"
proof (intro conjI impI)
  assume "CHR ''['' \<notin> set inp"
  then show "extract_list_items inp = []"
    by (simp add: extract_list_items_def finditer_list_re search_list_re_none)
next
  assume "CHR ''['' \<notin> set pre \<and> CHR '']'' \<notin> set body \<and> CHR 0x0A \<notin> set body"
  then show "extract_list_items (pre @ ''['' @ body @ '']'' @ post) = list_items body @ extract_list_items post"
    by (simp add: extract_list_items_def finditer_list_re_span group_def)
next
  assume "CHR ''['' \<notin> set pre \<and> CHR '']'' \<notin> set line \<and> (post = [] \<or> hd post = CHR 0x0A)"
  then show "extract_list_items (pre @ ''['' @ line @ post) = extract_list_items (line @ post)"
    by (simp add: extract_list_items_def finditer_list_re_open)
next
  show "list_items (a @ '','' @ b) = list_items a @ list_items b"
    by (simp add: list_items_append)
next
  assume "CHR '','' \<notin> set t"
  then show "list_items t = (if strip t = [] then [] else [strip_chars quote_or_blank t])"
    by (rule list_items_token)
qed

theorem extract_list_items_spans_witness:
  \<open>extract_list_items ''no list here'' = []
   \<and> extract_list_items ''f(["a.cpp", b], [c])'' = list_items ''"a.cpp", b'' @ extract_list_items '', [c])''
   \<and> extract_list_items ''[a,\<newline>b] [c]'' = extract_list_items ''a,\<newline>b] [c]''
   \<and> list_items ''"a.cpp", b'' = list_items ''"a.cpp"'' @ list_items '' b''
   \<and> list_items '' b'' = [''b'']
   \<and> list_items [CHR 0xA0] = []\<close>
proof -
  have s: \<open>strip '' b'' \<noteq> [] \<and> strip_chars quote_or_blank '' b'' = ''b''
      \<and> strip [CHR 0xA0] = []\<close>
    by code_simp
  from extract_list_items_spans [where inp = "''no list here''" and pre = "''f(''"
      and body = \<open>''"a.cpp", b''\<close> and post = "'', [c])''"
      and a = \<open>''"a.cpp"''\<close> and b = "'' b''" and t = "'' b''"]
    extract_list_items_spans [where pre = "[]" and line = "''a,''" and post = \<open>''\<newline>b] [c]''\<close>
      and t = "[CHR 0xA0]"] s
  show ?thesis by simp
qed

text \<open>
  The claim as stated fails: the second element of \<open>["a", ""]\<close> is empty and is returned, a
  tab before an element stays on it (and shields the quote behind it), and a list whose
  elements stand on two lines is not found.
\<close>

theorem extract_list_items_keeps_empty_element:
  \<open>extract_list_items ''["a", ""]'' = [''a'', []]
   \<and> extract_list_items [CHR ''['', CHR ''a'', CHR '','', CHR 0x09, CHR ''b'', CHR '']''] = [''a'', [CHR 0x09, CHR ''b'']]
   \<and> extract_list_items ''["a",\<newline> "b"]'' = []\<close>
  by code_simp

section \<open>Properties of the emitters\<close>

lemma platform_marker_not_indented:
  "''add_compile_options('' \<notin> indent4 ` A"
  "''add_compile_definitions('' \<notin> indent4 ` A"
  "''target_link_libraries(godot PRIVATE'' \<notin> indent4 ` A"
  by (auto simp: indent4_def)

lemma core_content_no_include:
  "''target_include_directories('' @ lib \<notin> set (core_content lib (map indent4 rels))"
  "''if(UNIX AND NOT APPLE)'' \<notin> set (core_content lib (map indent4 rels))"
  by (auto simp: core_content_def indent4_def)

text \<open>
  Claim C5. The claim says the library file always holds the include-directory
  declarations and the compile definitions of the Unix-non-Apple branch. The module emitter
  appends its include block with \<open>content.extend\<close>; in the library emitter the same lines
  are left as bare expressions, so no library file holds them, with sources or without.
  Here \<open>core\<close> has no sources (the warning is printed, the file has no target) and \<open>main\<close>
  has one.
\<close>

theorem core_file_has_no_include_block:
  "generate_core_cmake_files (Dir [(''core'', Dir []), (''main'', Dir [(''main.cpp'', File [])])])
     = (Dir [(''core'', Dir [(''CMakeLists.txt'', File ''# core library\<newline>\<newline>set(LIB_SOURCES'')]),
             (''main'', Dir [(''main.cpp'', File []),
                (''CMakeLists.txt'', File ''# main library\<newline>\<newline>set(LIB_SOURCES\<newline>    main.cpp\<newline>)\<newline>\<newline>add_library(main STATIC ${LIB_SOURCES})'')])],
        [NoLibrarySources ''core''], None)
   \<and> ''target_include_directories('' @ lib \<notin> set (core_content lib (map indent4 rels))
   \<and> ''if(UNIX AND NOT APPLE)'' \<notin> set (core_content lib (map indent4 rels))"
proof (intro conjI)
  show "generate_core_cmake_files (Dir [(''core'', Dir []), (''main'', Dir [(''main.cpp'', File [])])])
     = (Dir [(''core'', Dir [(''CMakeLists.txt'', File ''# core library\<newline>\<newline>set(LIB_SOURCES'')]),
             (''main'', Dir [(''main.cpp'', File []),
                (''CMakeLists.txt'', File ''# main library\<newline>\<newline>set(LIB_SOURCES\<newline>    main.cpp\<newline>)\<newline>\<newline>add_library(main STATIC ${LIB_SOURCES})'')])],
        [NoLibrarySources ''core''], None)"
    by code_simp
qed (rule core_content_no_include)+

section \<open>Properties of collection\<close>

lemma set_update_cases:
  "(a, b) \<in> set (AList.update k v al) \<Longrightarrow> (a, b) = (k, v) \<or> (a, b) \<in> set al"
  by (induction al) (auto split: if_splits)

lemma parse_platform_detect_fields:
  "parse_platform_detect fs platform p = Inr c \<Longrightarrow>
     p_name c = platform \<and> p_defines c = [] \<and> p_includes c = []"
  by (auto simp: parse_platform_detect_def split: sum.splits)

lemma parse_module_fields:
  "parse_module fs module p = Inr c \<Longrightarrow> m_name c = module \<and> m_defines c = [] \<and> m_includes c = []"
  by (auto simp: parse_module_def split: sum.splits if_splits)

lemma platform_loop_fields:
  "parse_platform_loop fs names acc = Inr res \<Longrightarrow>
   (\<And>k c. (k, c) \<in> set acc \<Longrightarrow> p_name c = k \<and> p_defines c = [] \<and> p_includes c = []) \<Longrightarrow>
   (k, c) \<in> set res \<Longrightarrow> p_name c = k \<and> p_defines c = [] \<and> p_includes c = []"
proof (induction names arbitrary: acc)
  case Nil
  then show ?case by simp
next
  case (Cons x names)
  show ?case
  proof (cases "is_dir fs [''platform'', x] \<and> exists_path fs [''platform'', x, ''detect.py'']")
    case False
    with Cons.prems(1) have "parse_platform_loop fs names acc = Inr res"
      by (auto split: if_splits)
    from Cons.IH [OF this Cons.prems(2) Cons.prems(3)] show ?thesis .
  next
    case True
    with Cons.prems(1) obtain cfg where
      d: "parse_platform_detect fs x [''platform'', x, ''detect.py''] = Inr cfg" and
      l: "parse_platform_loop fs names (AList.update x cfg acc) = Inr res"
      by (auto split: sum.splits)
    have "p_name c = k \<and> p_defines c = [] \<and> p_includes c = []"
      if "(k, c) \<in> set (AList.update x cfg acc)" for k c
    proof -
      from set_update_cases [OF that] consider "(k, c) = (x, cfg)" | "(k, c) \<in> set acc"
        by blast
      then show ?thesis
      proof cases
        case 1
        then show ?thesis using parse_platform_detect_fields [OF d] by simp
      next
        case 2
        then show ?thesis by (rule Cons.prems(2))
      qed
    qed
    from Cons.IH [OF l this Cons.prems(3)] show ?thesis .
  qed
qed

lemma modules_loop_fields:
  "parse_modules_loop fs names acc = Inr res \<Longrightarrow>
   (\<And>k c. (k, c) \<in> set acc \<Longrightarrow> m_name c = k \<and> m_defines c = [] \<and> m_includes c = []) \<Longrightarrow>
   (k, c) \<in> set res \<Longrightarrow> m_name c = k \<and> m_defines c = [] \<and> m_includes c = []"
proof (induction names arbitrary: acc)
  case Nil
  then show ?case by simp
next
  case (Cons x names)
  show ?case
  proof (cases "is_dir fs [''modules'', x]")
    case False
    with Cons.prems(1) have "parse_modules_loop fs names acc = Inr res"
      by (auto split: if_splits)
    from Cons.IH [OF this Cons.prems(2) Cons.prems(3)] show ?thesis .
  next
    case True
    with Cons.prems(1) obtain cfg where
      d: "parse_module fs x [''modules'', x] = Inr cfg" and
      l: "parse_modules_loop fs names (AList.update x cfg acc) = Inr res"
      by (auto split: sum.splits)
    have "m_name c = k \<and> m_defines c = [] \<and> m_includes c = []"
      if "(k, c) \<in> set (AList.update x cfg acc)" for k c
    proof -
      from set_update_cases [OF that] consider "(k, c) = (x, cfg)" | "(k, c) \<in> set acc"
        by blast
      then show ?thesis
      proof cases
        case 1
        then show ?thesis using parse_module_fields [OF d] by simp
      next
        case 2
        then show ?thesis by (rule Cons.prems(2))
      qed
    qed
    from Cons.IH [OF l this Cons.prems(3)] show ?thesis .
  qed
qed

lemma platform_content_defines:
  "(''add_compile_definitions('' \<in> set (platform_content platform config)) = (p_defines config \<noteq> [])"
  by (simp add: platform_content_def platform_marker_not_indented)

lemma is_dir_listed: "is_dir fs [r, d] \<Longrightarrow> d \<in> set (glob_star fs [r])"
proof -
  assume a: "is_dir fs [r, d]"
  then obtain es where es: "child fs r = Some (Dir es)"
    by (auto simp: is_dir_def child_def split: option.splits node.splits)
  with a have "map_of es d \<noteq> None"
    by (auto simp: is_dir_def child_def split: option.splits node.splits)
  then have "d \<in> fst ` set es"
    by (simp add: map_of_eq_None_iff)
  with es show ?thesis
    by (simp add: glob_star_def)
qed

lemma platform_loop_value:
  "parse_platform_loop fs names acc = Inr res \<Longrightarrow>
   (map_of res d \<noteq> None) =
     (map_of acc d \<noteq> None \<or>
      (d \<in> set names \<and> is_dir fs [''platform'', d] \<and> exists_path fs [''platform'', d, ''detect.py'']))"
proof (induction names arbitrary: acc)
  case Nil
  then show ?case by simp
next
  case (Cons x names)
  show ?case
  proof (cases "is_dir fs [''platform'', x] \<and> exists_path fs [''platform'', x, ''detect.py'']")
    case False
    with Cons.prems have "parse_platform_loop fs names acc = Inr res"
      by (simp split: if_splits)
    from Cons.IH [OF this] False show ?thesis by fastforce
  next
    case True
    with Cons.prems obtain cfg where
      l: "parse_platform_loop fs names (AList.update x cfg acc) = Inr res"
      by (simp split: sum.splits)
    from Cons.IH [OF l] True show ?thesis
      by (simp add: update_conv')
  qed
qed


lemma modules_loop_value:
  "parse_modules_loop fs names acc = Inr res \<Longrightarrow>
   (d \<in> set names \<and> is_dir fs [''modules'', d] \<longrightarrow>
      (\<exists>c. parse_module fs d [''modules'', d] = Inr c \<and> map_of res d = Some c))
   \<and> (\<not> (d \<in> set names \<and> is_dir fs [''modules'', d]) \<longrightarrow> map_of res d = map_of acc d)"
proof (induction names arbitrary: acc)
  case Nil
  then show ?case by simp
next
  case (Cons x names)
  show ?case
  proof (cases "is_dir fs [''modules'', x]")
    case False
    with Cons.prems have "parse_modules_loop fs names acc = Inr res"
      by (simp split: if_splits)
    from Cons.IH [OF this] False show ?thesis by fastforce
  next
    case True
    with Cons.prems obtain cfg where
      c: "parse_module fs x [''modules'', x] = Inr cfg" and
      l: "parse_modules_loop fs names (AList.update x cfg acc) = Inr res"
      by (auto split: sum.splits)
    show ?thesis
    proof (cases "d = x")
      case eq: True
      show ?thesis
      proof (cases "d \<in> set names")
        case True
        with Cons.IH [OF l] eq \<open>is_dir fs [''modules'', x]\<close> show ?thesis by simp
      next
        case False
        with Cons.IH [OF l] eq \<open>is_dir fs [''modules'', x]\<close> c show ?thesis
          by (simp add: update_conv')
      qed
    next
      case False
      with Cons.IH [OF l] show ?thesis by (simp add: update_conv')
    qed
  qed
qed

lemma example_platforms:
  "parse_platform_configs example_tree =
     Inr [(''linuxbsd'', \<lparr>p_name = ''linuxbsd'', p_defines = [], p_libs = [''GL'', ''X11''], p_includes = [], p_flags = []\<rparr>)]"
  by code_simp

lemma example_modules:
  "parse_modules example_tree =
     Inr [(''mymodule'', \<lparr>m_name = ''mymodule'', m_sources = [], m_deps = [''core''], m_defines = [], m_includes = []\<rparr>),
      (''bare'', \<lparr>m_name = ''bare'', m_sources = [], m_deps = [], m_defines = [], m_includes = []\<rparr>)]"
  by code_simp

text \<open>
  Claim C6. When platform collection returns, a name is a key of the platforms mapping
  exactly when it is a subdirectory of \<open>platform\<close> that holds \<open>detect.py\<close>: a subdirectory
  without the file has no entry. When module collection returns, a name is a key of the
  modules mapping exactly when it is a subdirectory of \<open>modules\<close>, and a subdirectory without
  \<open>SCsub\<close> has the entry with its name and four empty lists.
\<close>

theorem empty_directories_asymmetry:
  "(parse_platform_configs fs = Inr configs \<longrightarrow>
      (map_of configs d \<noteq> None) =
        (is_dir fs [''platform'', d] \<and> exists_path fs [''platform'', d, ''detect.py'']))
   \<and> (parse_modules fs = Inr modules \<longrightarrow>
      (map_of modules d \<noteq> None) = is_dir fs [''modules'', d]
      \<and> (is_dir fs [''modules'', d] \<and> \<not> exists_path fs [''modules'', d, ''SCsub''] \<longrightarrow>
           map_of modules d =
             Some \<lparr>m_name = d, m_sources = [], m_deps = [], m_defines = [], m_includes = []\<rparr>))"
proof (intro conjI impI)
  assume "parse_platform_configs fs = Inr configs"
  then have "parse_platform_loop fs (glob_star fs [''platform'']) [] = Inr configs"
    by (simp add: parse_platform_configs_def)
  from platform_loop_value [OF this, of d] is_dir_listed [of fs "''platform''" d]
  show "(map_of configs d \<noteq> None) =
        (is_dir fs [''platform'', d] \<and> exists_path fs [''platform'', d, ''detect.py''])"
    by auto
next
  assume "parse_modules fs = Inr modules"
  then have "parse_modules_loop fs (glob_star fs [''modules'']) [] = Inr modules"
    by (simp add: parse_modules_def)
  from modules_loop_value [OF this, of d] is_dir_listed [of fs "''modules''" d]
  show "(map_of modules d \<noteq> None) = is_dir fs [''modules'', d]"
    by auto
next
  assume m: "parse_modules fs = Inr modules"
    and d: "is_dir fs [''modules'', d] \<and> \<not> exists_path fs [''modules'', d, ''SCsub'']"
  from d have e: "parse_module fs d [''modules'', d] =
      Inr \<lparr>m_name = d, m_sources = [], m_deps = [], m_defines = [], m_includes = []\<rparr>"
    by (simp add: parse_module_def)
  from m have "parse_modules_loop fs (glob_star fs [''modules'']) [] = Inr modules"
    by (simp add: parse_modules_def)
  from modules_loop_value [OF this, of d] is_dir_listed [of fs "''modules''" d] d e
  show "map_of modules d =
      Some \<lparr>m_name = d, m_sources = [], m_deps = [], m_defines = [], m_includes = []\<rparr>"
    by auto
qed

theorem empty_directories_asymmetry_witness:
  "parse_platform_configs example_tree = Inr [(''linuxbsd'', \<lparr>p_name = ''linuxbsd'', p_defines = [], p_libs = [''GL'', ''X11''], p_includes = [], p_flags = []\<rparr>)]
   \<and> is_dir example_tree [''platform'', ''tools'']
   \<and> \<not> exists_path example_tree [''platform'', ''tools'', ''detect.py'']
   \<and> map_of [(''linuxbsd'', \<lparr>p_name = ''linuxbsd'', p_defines = [], p_libs = [''GL'', ''X11''], p_includes = [], p_flags = []\<rparr>)] ''tools'' = None
   \<and> parse_modules example_tree = Inr [(''mymodule'', \<lparr>m_name = ''mymodule'', m_sources = [], m_deps = [''core''], m_defines = [], m_includes = []\<rparr>),
      (''bare'', \<lparr>m_name = ''bare'', m_sources = [], m_deps = [], m_defines = [], m_includes = []\<rparr>)]
   \<and> is_dir example_tree [''modules'', ''bare'']
   \<and> \<not> exists_path example_tree [''modules'', ''bare'', ''SCsub'']
   \<and> map_of [(''mymodule'', \<lparr>m_name = ''mymodule'', m_sources = [], m_deps = [''core''], m_defines = [], m_includes = []\<rparr>),
      (''bare'', \<lparr>m_name = ''bare'', m_sources = [], m_deps = [], m_defines = [], m_includes = []\<rparr>)] ''bare'' = Some \<lparr>m_name = ''bare'', m_sources = [], m_deps = [], m_defines = [], m_includes = []\<rparr>"
proof -
  have t: "is_dir example_tree [''platform'', ''tools'']
      \<and> \<not> exists_path example_tree [''platform'', ''tools'', ''detect.py'']"
    by code_simp
  have b: "is_dir example_tree [''modules'', ''bare'']
      \<and> \<not> exists_path example_tree [''modules'', ''bare'', ''SCsub'']"
    by code_simp
  from empty_directories_asymmetry [of example_tree "[(''linuxbsd'', \<lparr>p_name = ''linuxbsd'', p_defines = [], p_libs = [''GL'', ''X11''], p_includes = [], p_flags = []\<rparr>)]" "''tools''" "[(''mymodule'', \<lparr>m_name = ''mymodule'', m_sources = [], m_deps = [''core''], m_defines = [], m_includes = []\<rparr>),
      (''bare'', \<lparr>m_name = ''bare'', m_sources = [], m_deps = [], m_defines = [], m_includes = []\<rparr>)]"]
    empty_directories_asymmetry [of example_tree "[(''linuxbsd'', \<lparr>p_name = ''linuxbsd'', p_defines = [], p_libs = [''GL'', ''X11''], p_includes = [], p_flags = []\<rparr>)]" "''bare''" "[(''mymodule'', \<lparr>m_name = ''mymodule'', m_sources = [], m_deps = [''core''], m_defines = [], m_includes = []\<rparr>),
      (''bare'', \<lparr>m_name = ''bare'', m_sources = [], m_deps = [], m_defines = [], m_includes = []\<rparr>)]"]
    example_platforms example_modules t b
  show ?thesis by simp
qed

text \<open>
  Claim C10. Every platform configuration and every module configuration that collection
  returns carries the name it is keyed by and has empty \<open>defines\<close> and \<open>includes\<close>, so the
  platform file of a collected platform never holds the compile-definitions block.
\<close>

theorem collected_defines_and_includes_empty:
  "(parse_platform_configs fs = Inr configs \<and> (platform, pc) \<in> set configs \<longrightarrow>
      p_name pc = platform \<and> p_defines pc = [] \<and> p_includes pc = []
      \<and> ''add_compile_definitions('' \<notin> set (platform_content platform pc))
   \<and> (parse_modules fs = Inr modules \<and> (module, mc) \<in> set modules \<longrightarrow>
      m_name mc = module \<and> m_defines mc = [] \<and> m_includes mc = [])"
proof (intro conjI impI)
  assume a: "parse_platform_configs fs = Inr configs \<and> (platform, pc) \<in> set configs"
  then have "p_name pc = platform \<and> p_defines pc = [] \<and> p_includes pc = []"
    using platform_loop_fields [of fs "glob_star fs [''platform'']" "[]" configs platform pc]
    by (simp add: parse_platform_configs_def)
  then show "p_name pc = platform" "p_defines pc = []" "p_includes pc = []"
    "''add_compile_definitions('' \<notin> set (platform_content platform pc)"
    by (simp_all add: platform_content_defines)
next
  assume a: "parse_modules fs = Inr modules \<and> (module, mc) \<in> set modules"
  then have "m_name mc = module \<and> m_defines mc = [] \<and> m_includes mc = []"
    using modules_loop_fields [of fs "glob_star fs [''modules'']" "[]" modules module mc]
    by (simp add: parse_modules_def)
  then show "m_name mc = module" "m_defines mc = []" "m_includes mc = []" by auto
qed

theorem collected_defines_and_includes_empty_witness:
  "parse_platform_configs example_tree = Inr [(''linuxbsd'', \<lparr>p_name = ''linuxbsd'', p_defines = [], p_libs = [''GL'', ''X11''], p_includes = [], p_flags = []\<rparr>)]
   \<and> p_defines \<lparr>p_name = ''linuxbsd'', p_defines = [], p_libs = [''GL'', ''X11''], p_includes = [], p_flags = []\<rparr> = []
   \<and> ''add_compile_definitions('' \<notin> set (platform_content ''linuxbsd'' \<lparr>p_name = ''linuxbsd'', p_defines = [], p_libs = [''GL'', ''X11''], p_includes = [], p_flags = []\<rparr>)
   \<and> parse_modules example_tree = Inr [(''mymodule'', \<lparr>m_name = ''mymodule'', m_sources = [], m_deps = [''core''], m_defines = [], m_includes = []\<rparr>),
      (''bare'', \<lparr>m_name = ''bare'', m_sources = [], m_deps = [], m_defines = [], m_includes = []\<rparr>)]
   \<and> m_defines \<lparr>m_name = ''mymodule'', m_sources = [], m_deps = [''core''], m_defines = [], m_includes = []\<rparr> = []"
  using collected_defines_and_includes_empty [of example_tree "[(''linuxbsd'', \<lparr>p_name = ''linuxbsd'', p_defines = [], p_libs = [''GL'', ''X11''], p_includes = [], p_flags = []\<rparr>)]" "''linuxbsd''" "\<lparr>p_name = ''linuxbsd'', p_defines = [], p_libs = [''GL'', ''X11''], p_includes = [], p_flags = []\<rparr>"
      "[(''mymodule'', \<lparr>m_name = ''mymodule'', m_sources = [], m_deps = [''core''], m_defines = [], m_includes = []\<rparr>),
      (''bare'', \<lparr>m_name = ''bare'', m_sources = [], m_deps = [], m_defines = [], m_includes = []\<rparr>)]" "''mymodule''" "\<lparr>m_name = ''mymodule'', m_sources = [], m_deps = [''core''], m_defines = [], m_includes = []\<rparr>"]
    example_platforms example_modules
  by simp

section \<open>Properties of source discovery\<close>







lemma listed_simps [simp]:
  "listed suffix [] = []"
  "listed suffix ((p, es) # ws) = map (\<lambda>x. p @ [x]) (matching suffix (map fst es)) @ listed suffix ws"
  "listed suffix (ws @ ws') = listed suffix ws @ listed suffix ws'"
  by (simp_all add: listed_def)








section \<open>Properties of a run\<close>

lemma missing_sconstruct:
  "lookup fs [''SConstruct''] = None \<Longrightarrow> convert fs = (fs, [Converting], Some FileNotFoundError)"
  by (simp add: convert_def parse_sconstruct_def read_file_def)

lemma missing_platform_root:
  "lookup fs [''platform''] = None \<Longrightarrow> parse_platform_configs fs = Inr []"
  by (simp add: parse_platform_configs_def glob_star_def)

lemma missing_modules_root:
  "lookup fs [''modules''] = None \<Longrightarrow> parse_modules fs = Inr []"
  by (simp add: parse_modules_def glob_star_def)

text \<open>
  Claim C3. Without \<open>SConstruct\<close> the run ends with an exception before anything is written
  (\<open>missing_sconstruct\<close>), and a missing \<open>platform\<close> or \<open>modules\<close> directory gives an empty
  mapping (\<open>missing_platform_root\<close>, \<open>missing_modules_root\<close>). The claim adds that the run
  then goes on without error. With no \<open>modules\<close> directory it does not: the module emitter
  opens \<open>modules/CMakeLists.txt\<close> for writing in a directory that is not there, where the
  platform emitter creates its directory first and the library emitter skips a missing one.
  The process ends with status 1.
\<close>

theorem missing_modules_root_ends_run:
  "parse_modules (Dir [(''SConstruct'', File [])]) = Inr []
   \<and> generate_module_cmake_files [] (Dir [(''SConstruct'', File [])])
       = (Dir [(''SConstruct'', File [])], [], Some FileNotFoundError)
   \<and> fst (main [''scons_to_cmake.py'', ''godot''] (Some (Dir [(''SConstruct'', File [])]))) = 1
   \<and> snd (snd (main [''scons_to_cmake.py'', ''godot''] (Some (Dir [(''SConstruct'', File [])])))) = [Converting]"
  by code_simp

section \<open>Running the pipeline twice\<close>

subsection \<open>What a write changes\<close>

lemma child_simps [simp]: "child (Dir es) x = map_of es x" "child (File c) x = None"
  by (simp_all add: child_def)

lemma kind_of_Nil_File: "(kind_of n [] = IsFile c) = (n = File c)"
  by (cases n) (simp_all add: kind_of_def)

lemma kind_of_Nil [simp]: "kind_of (Dir es) [] = IsDir" "kind_of (File c) [] = IsFile c"
  by (simp_all add: kind_of_def)

lemma kind_of_Cons:
  "kind_of n (x # q) = (case child n x of None \<Rightarrow> Absent | Some m \<Rightarrow> kind_of m q)"
  by (simp add: kind_of_def split: option.splits)

lemma kind_of_File_Cons [simp]: "kind_of (File c) (x # q) = Absent"
  by (simp add: kind_of_Cons child_simps)

lemma kind_write:
  "write_file fs p c = Inr fs' \<Longrightarrow> kind_of fs' q = (if q = p then IsFile c else kind_of fs q)"
proof (induction fs p c arbitrary: fs' q rule: write_file.induct)
  case (1 n c)
  then show ?case by simp
next
  case (2 d x p c)
  then show ?case by simp
next
  case (3 es x c)
  then have fs': "fs' = Dir (AList.update x (File c) es)"
    and old: "map_of es x = None \<or> (\<exists>d. map_of es x = Some (File d))"
    by (auto split: option.splits node.splits)
  show ?case
  proof (cases q)
    case Nil
    then show ?thesis by (simp add: fs')
  next
    case (Cons y q')
    show ?thesis
    proof (cases "y = x")
      case True
      with old show ?thesis
        by (cases q') (auto simp: Cons fs' kind_of_Cons update_conv')
    next
      case False
      then show ?thesis by (simp add: Cons fs' kind_of_Cons update_conv')
    qed
  qed
next
  case (4 es x y p c)
  then obtain n n' where n: "map_of es x = Some n" and w: "write_file n (y # p) c = Inr n'"
    and fs': "fs' = Dir (AList.update x n' es)"
    by (auto split: option.splits sum.splits)
  note IH = "4.IH" [OF n w]
  show ?case
  proof (cases q)
    case Nil
    then show ?thesis by (simp add: fs')
  next
    case (Cons z q')
    show ?thesis
    proof (cases "z = x")
      case True
      then show ?thesis using IH [of q'] n
        by (simp add: Cons fs' kind_of_Cons update_conv')
    next
      case False
      then show ?thesis by (simp add: Cons fs' kind_of_Cons update_conv')
    qed
  qed
qed

lemma kind_before_write:
  "write_file fs p c = Inr fs' \<Longrightarrow> kind_of fs p \<noteq> IsDir"
proof (induction fs p c arbitrary: fs' rule: write_file.induct)
  case (1 n c)
  then show ?case by simp
next
  case (2 d x p c)
  then show ?case by simp
next
  case (3 es x c)
  then show ?case
    by (auto simp: kind_of_Cons child_simps split: option.splits node.splits)
next
  case (4 es x y p c)
  then obtain n n' where n: "map_of es x = Some n" and w: "write_file n (y # p) c = Inr n'"
    by (auto split: option.splits sum.splits)
  from "4.IH" [OF n w] n show ?case
    by (simp add: kind_of_Cons child_simps)
qed

lemma write_same:
  "kind_of fs p = IsFile c \<Longrightarrow> p \<noteq> [] \<Longrightarrow> write_file fs p c = Inr fs"
proof (induction fs p c rule: write_file.induct)
  case (1 n c)
  then show ?case by simp
next
  case (2 d x p c)
  then show ?case by simp
next
  case (3 es x c)
  then have "map_of es x = Some (File c)"
    by (auto simp: kind_of_Cons kind_of_Nil_File split: option.splits)
  then show ?case by (simp add: update_triv)
next
  case (4 es x y p c)
  from "4.prems" obtain n where n: "map_of es x = Some n" and k: "kind_of n (y # p) = IsFile c"
    by (auto simp: kind_of_Cons [of _ x] child_simps split: option.splits)
  from "4.IH" [OF n k] n show ?case by (simp add: update_triv)
qed

lemma is_dir_kind: "is_dir fs p = (kind_of fs p = IsDir)"
  by (simp add: is_dir_def kind_of_def split: option.splits node.splits)

lemma exists_kind: "exists_path fs p = (kind_of fs p \<noteq> Absent)"
  by (simp add: exists_path_def kind_of_def split: option.splits node.splits)

lemma read_kind:
  "read_file fs p = (case kind_of fs p of Absent \<Rightarrow> Inl FileNotFoundError
     | IsDir \<Rightarrow> Inl IsADirectoryError | IsFile c \<Rightarrow> Inr c)"
  by (simp add: read_file_def kind_of_def split: option.splits node.splits)

lemma is_dir_write: "write_file fs p c = Inr fs' \<Longrightarrow> is_dir fs' q = is_dir fs q"
  using kind_write [of fs p c fs' q] kind_before_write [of fs p c fs']
  by (auto simp: is_dir_kind)


lemma glob_star_Nil [simp]: "glob_star (Dir es) [] = map fst es" "glob_star (File c) [] = []"
  by (simp_all add: glob_star_def)

lemma glob_star_Cons:
  "glob_star n (x # q) = (case child n x of None \<Rightarrow> [] | Some m \<Rightarrow> glob_star m q)"
  by (simp add: glob_star_def split: option.splits)

lemma glob_star_File [simp]: "glob_star (File c) q = []"
  by (cases q) (simp_all add: glob_star_Cons)

lemma glob_star_write:
  "write_file fs p c = Inr fs' \<Longrightarrow>
   glob_star fs' q = glob_star fs q \<or> (glob_star fs' q = glob_star fs q @ [last p] \<and> q @ [last p] = p)"
proof (induction fs p c arbitrary: fs' q rule: write_file.induct)
  case (1 n c)
  then show ?case by simp
next
  case (2 d x p c)
  then show ?case by simp
next
  case (3 es x c)
  then have fs': "fs' = Dir (AList.update x (File c) es)"
    and old: "map_of es x = None \<or> (\<exists>d. map_of es x = Some (File d))"
    by (auto split: option.splits node.splits)
  show ?case
  proof (cases q)
    case Nil
    then show ?thesis by (simp add: fs' update_keys)
  next
    case (Cons y q')
    with old show ?thesis
      by (auto simp: fs' glob_star_Cons update_conv')
  qed
next
  case (4 es x y p c)
  then obtain n n' where n: "map_of es x = Some n" and w: "write_file n (y # p) c = Inr n'"
    and fs': "fs' = Dir (AList.update x n' es)"
    by (auto split: option.splits sum.splits)
  note IH = "4.IH" [OF n w]
  from n have x: "x \<in> fst ` set es" by (metis map_of_eq_None_iff option.distinct(1))
  show ?case
  proof (cases q)
    case Nil
    with x show ?thesis by (simp add: fs' update_keys)
  next
    case (Cons z q')
    show ?thesis
    proof (cases "z = x")
      case True
      with IH [of q'] n show ?thesis
        by (auto simp: Cons fs' glob_star_Cons update_conv')
    next
      case False
      then show ?thesis by (simp add: Cons fs' glob_star_Cons update_conv')
    qed
  qed
qed

lemma subdirs_write:
  assumes "write_file fs p c = Inr fs'"
  shows "subdirs fs' q = subdirs fs q"
proof -
  have d: "is_dir fs' r = is_dir fs r" for r
    using assms by (rule is_dir_write)
  have "\<not> is_dir fs' p"
    using kind_write [OF assms, of p] by (simp add: is_dir_kind)
  with glob_star_write [OF assms, of q] show ?thesis
    by (auto simp: subdirs_def d)
qed

lemma glob_sub_update:
  "(case map_of es x of None \<Rightarrow> hidden x \<or> glob_rec suffix n' = []
      | Some n \<Rightarrow> glob_rec suffix n' = glob_rec suffix n) \<Longrightarrow>
   glob_sub suffix (AList.update x n' es) = glob_sub suffix es"
  by (induction es) (auto split: option.splits)

lemma matching_append_other:
  "\<not> endswith x suffix \<Longrightarrow> matching suffix (names @ [x]) = matching suffix names"
  by (simp add: matching_def)

lemma glob_rec_write:
  "write_file fs p c = Inr fs' \<Longrightarrow> \<not> endswith (last p) suffix \<Longrightarrow>
   glob_rec suffix fs' = glob_rec suffix fs"
proof (induction fs p c arbitrary: fs' rule: write_file.induct)
  case (1 n c)
  then show ?case by simp
next
  case (2 d x p c)
  then show ?case by simp
next
  case (3 es x c)
  then have fs': "fs' = Dir (AList.update x (File c) es)"
    and old: "map_of es x = None \<or> (\<exists>d. map_of es x = Some (File d))"
    by (auto split: option.splits node.splits)
  from old have "glob_sub suffix (AList.update x (File c) es) = glob_sub suffix es"
    by (intro glob_sub_update) auto
  moreover from "3.prems"(2)
  have "matching suffix (map fst (AList.update x (File c) es)) = matching suffix (map fst es)"
    by (simp add: update_keys matching_append_other)
  ultimately show ?case by (simp add: fs')
next
  case (4 es x y p c)
  then obtain n n' where n: "map_of es x = Some n" and w: "write_file n (y # p) c = Inr n'"
    and fs': "fs' = Dir (AList.update x n' es)"
    by (auto split: option.splits sum.splits)
  from "4.prems"(2) have "glob_rec suffix n' = glob_rec suffix n"
    by (intro "4.IH" [OF n w]) simp
  with n have "glob_sub suffix (AList.update x n' es) = glob_sub suffix es"
    by (intro glob_sub_update) simp
  moreover from n have "x \<in> fst ` set es" by (metis map_of_eq_None_iff option.distinct(1))
  then have "map fst (AList.update x n' es) = map fst es" by (simp add: update_keys)
  ultimately show ?case by (simp add: fs')
qed

lemma glob_rec_at_write:
  "write_file fs p c = Inr fs' \<Longrightarrow> \<not> endswith (last p) suffix \<Longrightarrow>
   (case lookup fs' d of None \<Rightarrow> [] | Some n \<Rightarrow> glob_rec suffix n)
     = (case lookup fs d of None \<Rightarrow> [] | Some n \<Rightarrow> glob_rec suffix n)"
proof (induction fs p c arbitrary: fs' d rule: write_file.induct)
  case (1 n c)
  then show ?case by simp
next
  case (2 d x p c)
  then show ?case by simp
next
  case (3 es x c)
  show ?case
  proof (cases d)
    case Nil
    with glob_rec_write [OF "3.prems"] show ?thesis by simp
  next
    case (Cons y d')
    from "3.prems"(1) have fs': "fs' = Dir (AList.update x (File c) es)"
      and old: "map_of es x = None \<or> (\<exists>d. map_of es x = Some (File d))"
      by (auto split: option.splits node.splits)
    from old show ?thesis
      by (cases d') (auto simp: Cons fs' update_conv')
  qed
next
  case (4 es x y p c)
  show ?case
  proof (cases d)
    case Nil
    with glob_rec_write [OF "4.prems"] show ?thesis by simp
  next
    case (Cons z d')
    from "4.prems"(1) obtain n n' where n: "map_of es x = Some n"
      and w: "write_file n (y # p) c = Inr n'"
      and fs': "fs' = Dir (AList.update x n' es)"
      by (auto split: option.splits sum.splits)
    from "4.prems"(2) have e: "\<not> endswith (last (y # p)) suffix" by simp
    from "4.IH" [OF n w e, of d'] n show ?thesis
      by (simp add: Cons fs' update_conv')
  qed
qed

lemma find_sources_alt:
  "find_sources fs d =
     concat (map (\<lambda>suffix. map (join ''/'')
       (case lookup fs d of None \<Rightarrow> [] | Some n \<Rightarrow> glob_rec suffix n)) source_suffixes)"
  by (simp add: find_sources_def dir_sources_def split: option.splits)

lemma cmakelists_no_source:
  "suffix \<in> set source_suffixes \<Longrightarrow> \<not> endswith ''CMakeLists.txt'' suffix"
  by (auto simp: source_suffixes_def endswith_def)

lemma find_sources_write:
  assumes "write_file fs p c = Inr fs'" "last p = ''CMakeLists.txt''"
  shows "find_sources fs' d = find_sources fs d"
proof -
  have "(case lookup fs' d of None \<Rightarrow> [] | Some n \<Rightarrow> glob_rec suffix n)
     = (case lookup fs d of None \<Rightarrow> [] | Some n \<Rightarrow> glob_rec suffix n)"
    if "suffix \<in> set source_suffixes" for suffix
    using assms cmakelists_no_source [OF that] by (intro glob_rec_at_write) auto
  then show ?thesis
    unfolding find_sources_alt by (intro arg_cong [where f = concat] map_cong) auto
qed

lemma lookup_write_other_top:
  "write_file fs (a # r) c = Inr fs' \<Longrightarrow> b \<noteq> a \<Longrightarrow> lookup fs' (b # q) = lookup fs (b # q)"
  by (cases fs; cases r) (auto simp: update_conv' split: option.splits node.splits sum.splits)

lemma lookup_mkdir_other_top:
  "mkdir_exist_ok fs a = Inr fs' \<Longrightarrow> b \<noteq> a \<Longrightarrow> lookup fs' (b # q) = lookup fs (b # q)"
  by (cases fs) (auto simp: mkdir_exist_ok_def update_conv' split: option.splits node.splits)

lemma agree_refl: "agree S fs fs"
  by (simp add: agree_def)

lemma agree_trans: "agree S a b \<Longrightarrow> agree T b c \<Longrightarrow> agree (S \<union> T) a c"
  unfolding agree_def by (metis UnCI)

lemma agree_mono: "agree S a b \<Longrightarrow> S \<subseteq> T \<Longrightarrow> agree T a b"
  unfolding agree_def by blast

lemma agree_kind: "agree S a b \<Longrightarrow> q \<notin> S \<Longrightarrow> kind_of b q = kind_of a q"
  unfolding agree_def by blast

lemma agree_sources: "agree S a b \<Longrightarrow> x \<noteq> ''cmake'' \<Longrightarrow> find_sources b (x # d) = find_sources a (x # d)"
  unfolding agree_def by blast

lemma agree_write:
  assumes "write_file fs p c = Inr fs'" "last p = ''CMakeLists.txt''"
  shows "agree {p} fs fs'"
  unfolding agree_def
  using kind_write [OF assms(1)] subdirs_write [OF assms(1)] find_sources_write [OF assms]
  by simp

lemma find_sources_top:
  "(\<And>q. lookup fs' (b # q) = lookup fs (b # q)) \<Longrightarrow> find_sources fs' (b # d) = find_sources fs (b # d)"
  by (simp add: find_sources_def)

lemma subdirs_top:
  assumes "\<And>q. lookup fs' (b # q) = lookup fs (b # q)"
  shows "subdirs fs' [b] = subdirs fs [b]"
proof -
  have "glob_star fs' [b] = glob_star fs [b]"
    using assms [of "[]"] by (simp add: glob_star_def)
  moreover have "is_dir fs' ([b] @ [x]) = is_dir fs ([b] @ [x])" for x
    using assms [of "[x]"] by (simp add: is_dir_def)
  ultimately show ?thesis
    by (simp add: subdirs_def)
qed

lemma agree_cmake_write:
  assumes "write_file fs [''cmake'', x] c = Inr fs'"
  shows "agree {[''cmake'', x]} fs fs'"
  unfolding agree_def
proof (intro conjI allI)
  fix q show "q \<in> {[''cmake'', x]} \<or> kind_of fs' q = kind_of fs q"
    using kind_write [OF assms, of q] by auto
next
  show "subdirs fs' [''platform''] = subdirs fs [''platform'']"
    using assms by (rule subdirs_write)
  show "subdirs fs' [''modules''] = subdirs fs [''modules'']"
    using assms by (rule subdirs_write)
next
  fix y d show "y = ''cmake'' \<or> find_sources fs' (y # d) = find_sources fs (y # d)"
    using lookup_write_other_top [OF assms, of y] by (auto intro: find_sources_top)
qed

lemma kind_mkdir:
  assumes "mkdir_exist_ok fs a = Inr fs'"
  shows "kind_of fs' q = (if q = [a] then IsDir else kind_of fs q)"
proof (cases q)
  case Nil
  with assms show ?thesis
    by (cases fs) (auto simp: mkdir_exist_ok_def split: option.splits node.splits)
next
  case (Cons b q')
  show ?thesis
  proof (cases "b = a")
    case False
    with lookup_mkdir_other_top [OF assms, of b q'] show ?thesis
      by (simp add: Cons kind_of_def)
  next
    case True
    with assms show ?thesis
      by (cases fs; cases q')
        (auto simp: Cons mkdir_exist_ok_def kind_of_Cons update_conv' split: option.splits node.splits)
  qed
qed

lemma agree_mkdir:
  assumes "mkdir_exist_ok fs ''cmake'' = Inr fs'"
  shows "agree {[''cmake'']} fs fs'"
  unfolding agree_def
proof (intro conjI allI)
  fix q show "q \<in> {[''cmake'']} \<or> kind_of fs' q = kind_of fs q"
    using kind_mkdir [OF assms, of q] by auto
next
  show "subdirs fs' [''platform''] = subdirs fs [''platform'']"
    using lookup_mkdir_other_top [OF assms, of "''platform''"] by (intro subdirs_top) simp
  show "subdirs fs' [''modules''] = subdirs fs [''modules'']"
    using lookup_mkdir_other_top [OF assms, of "''modules''"] by (intro subdirs_top) simp
next
  fix y d show "y = ''cmake'' \<or> find_sources fs' (y # d) = find_sources fs (y # d)"
    using lookup_mkdir_other_top [OF assms, of y] by (auto intro: find_sources_top)
qed

lemma mkdir_same: "kind_of fs [a] = IsDir \<Longrightarrow> mkdir_exist_ok fs a = Inr fs"
  by (cases fs) (auto simp: mkdir_exist_ok_def kind_of_Cons kind_of_def split: option.splits node.splits)

subsection \<open>Steps of a run\<close>

lemma and_then_ok:
  "and_then r f = (fs', out, None) \<Longrightarrow>
   \<exists>f1 o1 o2. r = (f1, o1, None) \<and> f f1 = (fs', o2, None) \<and> out = o1 @ o2"
  by (cases r) (auto simp: and_then_def split: option.splits prod.splits)

lemma and_then_cases:
  "and_then r f = (fs', out, e) \<Longrightarrow>
   (\<exists>o1 e1. r = (fs', o1, Some e1)) \<or> (\<exists>f1 o1 o2. r = (f1, o1, None) \<and> f f1 = (fs', o2, e))"
  by (cases r) (auto simp: and_then_def split: option.splits prod.splits)

lemma and_then_same:
  "r = (F, o1, None) \<Longrightarrow> f F = (F, o2, None) \<Longrightarrow> and_then r f = (F, o1 @ o2, None)"
  by (simp add: and_then_def)

lemma write_step_frame:
  "write_step p c fs = (fs', out, e) \<Longrightarrow> last p = ''CMakeLists.txt'' \<Longrightarrow> agree {p} fs fs'"
  by (auto simp: write_step_def agree_refl agree_write split: sum.splits)

lemma write_step_cmake_frame:
  "write_step [''cmake'', x] c fs = (fs', out, e) \<Longrightarrow> agree {[''cmake'', x]} fs fs'"
  by (auto simp: write_step_def agree_refl agree_cmake_write split: sum.splits)

lemma write_step_ok:
  "write_step p c fs = (fs', out, None) \<Longrightarrow> out = [] \<and> kind_of fs' p = IsFile c"
  by (auto simp: write_step_def kind_write split: sum.splits)

lemma write_step_same:
  "kind_of F p = IsFile c \<Longrightarrow> p \<noteq> [] \<Longrightarrow> write_step p c F = (F, [], None)"
  by (simp add: write_step_def write_same)

lemma for_each_frame:
  assumes "\<And>x a b out e. body x a = (b, out, e) \<Longrightarrow> agree {pth x} a b"
  shows "for_each body xs fs = (fs', out, e) \<Longrightarrow> agree (pth ` set xs) fs fs'"
proof (induction xs arbitrary: fs out)
  case Nil
  then show ?case by (simp add: agree_refl)
next
  case (Cons x xs)
  from Cons.prems have "and_then (body x fs) (for_each body xs) = (fs', out, e)" by simp
  from and_then_cases [OF this] show ?case
  proof (elim disjE exE conjE)
    fix o1 e1 assume "body x fs = (fs', o1, Some e1)"
    from assms [OF this] show ?thesis by (rule agree_mono) auto
  next
    fix f1 o1 o2 assume b: "body x fs = (f1, o1, None)" and r: "for_each body xs f1 = (fs', o2, e)"
    from agree_trans [OF assms [OF b] Cons.IH [OF r]] show ?thesis by simp
  qed
qed

lemma for_each_replay:
  assumes frame: "\<And>x a b out e. body x a = (b, out, e) \<Longrightarrow> agree {pth x} a b"
    and replay: "\<And>x a b out T G. x \<in> set xs \<Longrightarrow> body x a = (b, out, None) \<Longrightarrow>
        agree T b G \<Longrightarrow> pth x \<notin> T \<Longrightarrow> (\<forall>p\<in>T. generated p) \<Longrightarrow> agree (insert (pth x) T) a G \<Longrightarrow>
        body x G = (G, out, None)"
    and gen: "\<And>x. x \<in> set xs \<Longrightarrow> generated (pth x)"
    and dist: "distinct (map pth xs)"
    and run: "for_each body xs fs = (fs', out, None)"
    and fin: "agree S fs' F" "\<forall>p\<in>S. generated p" "S \<inter> pth ` set xs = {}"
  shows "for_each body xs F = (F, out, None)"
  using replay gen dist run fin(3)
proof (induction xs arbitrary: fs out)
  case Nil
  then show ?case by simp
next
  case (Cons x xs)
  from Cons.prems(4) have "and_then (body x fs) (for_each body xs) = (fs', out, None)" by simp
  from and_then_ok [OF this] obtain f1 o1 o2 where
    b: "body x fs = (f1, o1, None)" and r: "for_each body xs f1 = (fs', o2, None)"
    and out: "out = o1 @ o2"
    by blast
  have rest: "for_each body xs F = (F, o2, None)"
  proof (rule Cons.IH [OF _ _ _ r])
    show "body y G = (G, out, None)"
      if "y \<in> set xs" "body y a = (b, out, None)" "agree T b G" "pth y \<notin> T"
        "\<forall>p\<in>T. generated p" "agree (insert (pth y) T) a G" for y a b out T G
      using that by (intro Cons.prems(1) [of y a b out T G]) auto
    show "generated (pth y)" if "y \<in> set xs" for y
      using that by (intro Cons.prems(2)) simp
    show "distinct (map pth xs)" using Cons.prems(3) by simp
    show "S \<inter> pth ` set xs = {}" using Cons.prems(5) by auto
  qed
  let ?T = "pth ` set xs \<union> S"
  have t: "agree ?T f1 F"
    using agree_trans [OF for_each_frame [OF frame r] fin(1)] by simp
  have nx: "pth x \<notin> ?T"
    using Cons.prems(3) Cons.prems(5) by auto
  have g: "\<forall>p\<in>?T. generated p"
    using Cons.prems(2) fin(2) by auto
  have a: "agree (insert (pth x) ?T) fs F"
    using agree_trans [OF frame [OF b] t] by simp
  have "body x F = (F, o1, None)"
    by (rule Cons.prems(1) [OF _ b t nx g a]) simp
  with rest show ?case
    by (simp add: out and_then_same)
qed

subsection \<open>Collection sees only what agrees\<close>

lemma not_generated [simp]:
  "\<not> generated [''SConstruct'']"
  "\<not> generated [''platform'', x, ''detect.py'']"
  "\<not> generated [''modules'', x, ''SCsub'']"
  by (simp_all add: generated_def)

lemma outside: "\<forall>p\<in>S. generated p \<Longrightarrow> \<not> generated q \<Longrightarrow> q \<notin> S"
  by blast

lemma parse_sconstruct_agree:
  assumes "agree S fs F" "\<forall>p\<in>S. generated p"
  shows "parse_sconstruct F = parse_sconstruct fs"
proof -
  have "kind_of F [''SConstruct''] = kind_of fs [''SConstruct'']"
    by (rule agree_kind [OF assms(1) outside [OF assms(2)]]) simp
  then show ?thesis
    by (simp add: parse_sconstruct_def read_kind)
qed

lemma platform_loop_filter:
  "parse_platform_loop fs (filter (\<lambda>x. is_dir fs [''platform'', x]) names) acc
     = parse_platform_loop fs names acc"
  by (induction names arbitrary: acc) (auto split: sum.splits)

lemma parse_platform_configs_subdirs:
  "parse_platform_configs fs = parse_platform_loop fs (subdirs fs [''platform'']) []"
  using platform_loop_filter [of fs "glob_star fs [''platform'']" "[]"]
  by (simp add: parse_platform_configs_def subdirs_def)

lemma platform_loop_agree:
  assumes "\<And>x. x \<in> set names \<Longrightarrow> is_dir F [''platform'', x] = is_dir fs [''platform'', x]"
    and "\<And>x. kind_of F [''platform'', x, ''detect.py''] = kind_of fs [''platform'', x, ''detect.py'']"
  shows "parse_platform_loop F names acc = parse_platform_loop fs names acc"
  using assms(1)
proof (induction names arbitrary: acc)
  case Nil
  then show ?case by simp
next
  case (Cons x names)
  have d: "parse_platform_detect F x [''platform'', x, ''detect.py'']
      = parse_platform_detect fs x [''platform'', x, ''detect.py'']"
    using assms(2) [of x] by (simp add: parse_platform_detect_def read_kind)
  have e: "exists_path F [''platform'', x, ''detect.py''] = exists_path fs [''platform'', x, ''detect.py'']"
    using assms(2) [of x] by (simp add: exists_kind)
  have i: "is_dir F [''platform'', x] = is_dir fs [''platform'', x]"
    using Cons.prems by simp
  have r: "parse_platform_loop F names acc' = parse_platform_loop fs names acc'" for acc'
    using Cons.prems by (intro Cons.IH) simp
  show ?case by (simp add: d e i r split: sum.splits)
qed

lemma subdirs_is_dir: "x \<in> set (subdirs fs [r]) \<Longrightarrow> is_dir fs [r, x]"
  by (simp add: subdirs_def)

lemma parse_platform_configs_agree:
  assumes "agree S fs F" "\<forall>p\<in>S. generated p"
  shows "parse_platform_configs F = parse_platform_configs fs"
proof -
  have s: "subdirs F [''platform''] = subdirs fs [''platform'']"
    using assms(1) by (simp add: agree_def)
  have "parse_platform_loop F (subdirs fs [''platform'']) [] = parse_platform_loop fs (subdirs fs [''platform'']) []"
  proof (rule platform_loop_agree)
    fix x assume "x \<in> set (subdirs fs [''platform''])"
    then show "is_dir F [''platform'', x] = is_dir fs [''platform'', x]"
      using subdirs_is_dir [of x fs "''platform''"] subdirs_is_dir [of x F "''platform''"] s by simp
  next
    fix x show "kind_of F [''platform'', x, ''detect.py''] = kind_of fs [''platform'', x, ''detect.py'']"
      by (rule agree_kind [OF assms(1) outside [OF assms(2)]]) simp
  qed
  then show ?thesis by (simp add: parse_platform_configs_subdirs s)
qed

lemma modules_loop_filter:
  "parse_modules_loop fs (filter (\<lambda>x. is_dir fs [''modules'', x]) names) acc
     = parse_modules_loop fs names acc"
  by (induction names arbitrary: acc) (auto split: sum.splits)

lemma parse_modules_subdirs:
  "parse_modules fs = parse_modules_loop fs (subdirs fs [''modules'']) []"
  using modules_loop_filter [of fs "glob_star fs [''modules'']" "[]"]
  by (simp add: parse_modules_def subdirs_def)

lemma modules_loop_agree:
  assumes "\<And>x. x \<in> set names \<Longrightarrow> is_dir F [''modules'', x] = is_dir fs [''modules'', x]"
    and "\<And>x. kind_of F [''modules'', x, ''SCsub''] = kind_of fs [''modules'', x, ''SCsub'']"
  shows "parse_modules_loop F names acc = parse_modules_loop fs names acc"
  using assms(1)
proof (induction names arbitrary: acc)
  case Nil
  then show ?case by simp
next
  case (Cons x names)
  have d: "parse_module F x [''modules'', x] = parse_module fs x [''modules'', x]"
    using assms(2) [of x] by (simp add: parse_module_def read_kind exists_kind)
  have i: "is_dir F [''modules'', x] = is_dir fs [''modules'', x]"
    using Cons.prems by simp
  have r: "parse_modules_loop F names acc' = parse_modules_loop fs names acc'" for acc'
    using Cons.prems by (intro Cons.IH) simp
  show ?case by (simp add: d i r split: sum.splits)
qed

lemma parse_modules_agree:
  assumes "agree S fs F" "\<forall>p\<in>S. generated p"
  shows "parse_modules F = parse_modules fs"
proof -
  have s: "subdirs F [''modules''] = subdirs fs [''modules'']"
    using assms(1) by (simp add: agree_def)
  have "parse_modules_loop F (subdirs fs [''modules'']) [] = parse_modules_loop fs (subdirs fs [''modules'']) []"
  proof (rule modules_loop_agree)
    fix x assume "x \<in> set (subdirs fs [''modules''])"
    then show "is_dir F [''modules'', x] = is_dir fs [''modules'', x]"
      using subdirs_is_dir [of x fs "''modules''"] subdirs_is_dir [of x F "''modules''"] s by simp
  next
    fix x show "kind_of F [''modules'', x, ''SCsub''] = kind_of fs [''modules'', x, ''SCsub'']"
      by (rule agree_kind [OF assms(1) outside [OF assms(2)]]) simp
  qed
  then show ?thesis by (simp add: parse_modules_subdirs s)
qed

lemma platform_loop_distinct:
  "parse_platform_loop fs names acc = Inr res \<Longrightarrow> distinct (map fst acc) \<Longrightarrow> distinct (map fst res)"
  by (induction names arbitrary: acc) (auto simp: distinct_update split: if_splits sum.splits)

lemma modules_loop_distinct:
  "parse_modules_loop fs names acc = Inr res \<Longrightarrow> distinct (map fst acc) \<Longrightarrow> distinct (map fst res)"
  by (induction names arbitrary: acc) (auto simp: distinct_update split: if_splits sum.splits)

subsection \<open>The emitters, run again\<close>

lemma and_then_say:
  "and_then (say ms fs) f = (case f fs of (fs', out, e) \<Rightarrow> (fs', ms @ out, e))"
  by (simp add: and_then_def say_def)

lemma platform_file_frame:
  "generate_platform_file pc a = (b, out, e) \<Longrightarrow>
   agree {[''cmake'', ''platform_'' @ fst pc @ ''.cmake'']} a b"
  unfolding generate_platform_file_def by (rule write_step_cmake_frame)

lemma platform_file_replay:
  assumes "generate_platform_file pc a = (b, out, None)" "agree T b G"
    "[''cmake'', ''platform_'' @ fst pc @ ''.cmake''] \<notin> T"
  shows "generate_platform_file pc G = (G, out, None)"
proof -
  from assms(1) have o: "out = []"
    and k: "kind_of b [''cmake'', ''platform_'' @ fst pc @ ''.cmake'']
      = IsFile (join newline (platform_content (fst pc) (snd pc)))"
    unfolding generate_platform_file_def by (auto dest: write_step_ok)
  from agree_kind [OF assms(2) assms(3)] k show ?thesis
    unfolding generate_platform_file_def o by (intro write_step_same) simp_all
qed

lemma platform_paths_distinct:
  "distinct (map fst configs) \<Longrightarrow>
   distinct (map (\<lambda>pc. [''cmake'', ''platform_'' @ fst pc @ ''.cmake'']) configs)"
  by (induction configs) auto

lemma platform_frame:
  assumes "generate_platform_cmake_files configs fs = (fs', out, e)"
  shows "agree (insert [''cmake''] ((\<lambda>pc. [''cmake'', ''platform_'' @ fst pc @ ''.cmake'']) ` set configs)) fs fs'"
proof (cases "mkdir_exist_ok fs ''cmake''")
  case (Inl err)
  with assms have "fs' = fs" by (simp add: generate_platform_cmake_files_def)
  then show ?thesis by (simp add: agree_refl)
next
  case (Inr fs1)
  with assms have "for_each generate_platform_file configs fs1 = (fs', out, e)"
    by (simp add: generate_platform_cmake_files_def)
  from agree_trans [OF agree_mkdir [OF Inr] for_each_frame [OF platform_file_frame this]]
  show ?thesis by simp
qed

lemma platform_replay:
  assumes run: "generate_platform_cmake_files configs fs = (fs', out, None)"
    and dist: "distinct (map fst configs)"
    and fin: "agree S fs' F" "\<forall>p\<in>S. generated p"
      "[''cmake''] \<notin> S" "S \<inter> (\<lambda>pc. [''cmake'', ''platform_'' @ fst pc @ ''.cmake'']) ` set configs = {}"
  shows "generate_platform_cmake_files configs F = (F, out, None)"
proof -
  let ?pth = "\<lambda>pc :: string \<times> platform_config. [''cmake'', ''platform_'' @ fst pc @ ''.cmake'']"
  from run obtain fs1 where m: "mkdir_exist_ok fs ''cmake'' = Inr fs1"
    and r: "for_each generate_platform_file configs fs1 = (fs', out, None)"
    by (auto simp: generate_platform_cmake_files_def split: sum.splits)
  have "kind_of fs1 [''cmake''] = IsDir"
    using kind_mkdir [OF m, of "[''cmake'']"] by simp
  moreover have "agree (?pth ` set configs) fs1 fs'"
    using for_each_frame [OF platform_file_frame r] .
  ultimately have "kind_of fs' [''cmake''] = IsDir"
    using agree_kind [of "?pth ` set configs" fs1 fs' "[''cmake'']"] by auto
  with agree_kind [OF fin(1) fin(3)] have "kind_of F [''cmake''] = IsDir" by simp
  then have mk: "mkdir_exist_ok F ''cmake'' = Inr F" by (rule mkdir_same)
  have "for_each generate_platform_file configs F = (F, out, None)"
  proof (rule for_each_replay [where pth = ?pth, OF platform_file_frame _ _ _ r fin(1) fin(2) fin(4)])
    show "generate_platform_file x G = (G, out, None)"
      if "generate_platform_file x a = (b, out, None)" "agree T b G" "?pth x \<notin> T"
      for x a b out T G
      using that by (rule platform_file_replay)
    show "generated (?pth x)" for x by (simp add: generated_def)
    show "distinct (map ?pth configs)" using dist by (rule platform_paths_distinct)
  qed
  with mk show ?thesis by (simp add: generate_platform_cmake_files_def)
qed

lemma core_lib_frame:
  assumes "generate_core_lib lib a = (b, out, e)"
  shows "agree {[lib, ''CMakeLists.txt'']} a b"
proof (cases "exists_path a [lib]")
  case False
  with assms have "b = a" by (simp add: generate_core_lib_def)
  then show ?thesis by (simp add: agree_refl)
next
  case True
  let ?c = "join newline (core_content lib (map indent4 (find_sources a [lib])))"
  obtain b' o' e' where w: "write_step [lib, ''CMakeLists.txt''] ?c a = (b', o', e')"
    by (cases "write_step [lib, ''CMakeLists.txt''] ?c a") auto
  with assms True have "b' = b" by (simp add: generate_core_lib_def and_then_say)
  with write_step_frame [OF w] show ?thesis by simp
qed

lemma core_lib_replay:
  assumes run: "generate_core_lib lib a = (b, out, None)"
    and t: "agree T b G" "[lib, ''CMakeLists.txt''] \<notin> T" "\<forall>p\<in>T. generated p"
    and a: "agree (insert [lib, ''CMakeLists.txt''] T) a G"
    and lib: "lib \<noteq> ''cmake''" "lib \<noteq> ''CMakeLists.txt''"
  shows "generate_core_lib lib G = (G, out, None)"
proof -
  have "[lib] \<notin> insert [lib, ''CMakeLists.txt''] T"
    using outside [OF t(3), of "[lib]"] lib by (simp add: generated_def)
  from agree_kind [OF a this] have ex: "exists_path G [lib] = exists_path a [lib]"
    by (simp add: exists_kind)
  have src: "find_sources G [lib] = find_sources a [lib]"
    using a lib(1) by (rule agree_sources)
  show ?thesis
  proof (cases "exists_path a [lib]")
    case False
    with run ex show ?thesis by (simp add: generate_core_lib_def)
  next
    case True
    let ?c = "join newline (core_content lib (map indent4 (find_sources a [lib])))"
    let ?ms = "if find_sources a [lib] \<noteq> [] then [] else [NoLibrarySources lib]"
    obtain b' o' e' where w': "write_step [lib, ''CMakeLists.txt''] ?c a = (b', o', e')"
      by (cases "write_step [lib, ''CMakeLists.txt''] ?c a") auto
    with run True have "b' = b" "e' = None" "out = ?ms @ o'"
      by (simp_all add: generate_core_lib_def and_then_say)
    with w' write_step_ok [of "[lib, ''CMakeLists.txt'']" ?c a b o']
    have w: "write_step [lib, ''CMakeLists.txt''] ?c a = (b, [], None)" and o: "out = ?ms"
      by simp_all
    from write_step_ok [OF w] agree_kind [OF t(1) t(2)]
    have "kind_of G [lib, ''CMakeLists.txt''] = IsFile ?c" by simp
    then have "write_step [lib, ''CMakeLists.txt''] ?c G = (G, [], None)"
      by (intro write_step_same) simp_all
    with True ex src o show ?thesis
      by (simp add: generate_core_lib_def and_then_say)
  qed
qed

lemma core_replay:
  assumes run: "generate_core_cmake_files fs = (fs', out, None)"
    and fin: "agree S fs' F" "\<forall>p\<in>S. generated p"
      "S \<inter> (\<lambda>lib. [lib, ''CMakeLists.txt'']) ` set core_libs = {}"
  shows "generate_core_cmake_files F = (F, out, None)"
  unfolding generate_core_cmake_files_def
proof (rule for_each_replay [where pth = "\<lambda>lib. [lib, ''CMakeLists.txt'']",
      OF core_lib_frame _ _ _ run [unfolded generate_core_cmake_files_def] fin])
  show "generate_core_lib x G = (G, out, None)"
    if "x \<in> set core_libs" "generate_core_lib x a = (b, out, None)" "agree T b G"
      "[x, ''CMakeLists.txt''] \<notin> T" "\<forall>p\<in>T. generated p"
      "agree (insert [x, ''CMakeLists.txt''] T) a G" for x a b out T G
  proof (rule core_lib_replay [OF that(2-6)])
    from that(1) show "x \<noteq> ''cmake''" "x \<noteq> ''CMakeLists.txt''"
      by (auto simp: core_libs_def)
  qed
  show "generated [x, ''CMakeLists.txt'']" for x by (simp add: generated_def)
  show "distinct (map (\<lambda>lib. [lib, ''CMakeLists.txt'']) core_libs)"
    by (simp add: core_libs_def)
qed

lemma module_file_frame:
  assumes "generate_module_file mc a = (b, out, e)"
  shows "agree {[''modules'', fst mc, ''CMakeLists.txt'']} a b"
proof -
  let ?c = "join newline (module_content (fst mc) (snd mc)
      (map indent4 (find_sources a [''modules'', fst mc])))"
  obtain b' o' e' where w: "write_step [''modules'', fst mc, ''CMakeLists.txt''] ?c a = (b', o', e')"
    by (cases "write_step [''modules'', fst mc, ''CMakeLists.txt''] ?c a") auto
  with assms have "b' = b" by (simp add: generate_module_file_def and_then_say)
  with write_step_frame [OF w] show ?thesis by simp
qed

lemma module_file_replay:
  assumes run: "generate_module_file mc a = (b, out, None)"
    and t: "agree T b G" "[''modules'', fst mc, ''CMakeLists.txt''] \<notin> T"
    and a: "agree (insert [''modules'', fst mc, ''CMakeLists.txt''] T) a G"
  shows "generate_module_file mc G = (G, out, None)"
proof -
  have src: "find_sources G [''modules'', fst mc] = find_sources a [''modules'', fst mc]"
    using a by (rule agree_sources) simp
  let ?srcs = "find_sources a [''modules'', fst mc]"
  let ?c = "join newline (module_content (fst mc) (snd mc) (map indent4 ?srcs))"
  let ?ms = "if ?srcs \<noteq> [] then map (FoundSource (fst mc)) ?srcs else [NoModuleSources (fst mc)]"
  obtain b' o' e' where w': "write_step [''modules'', fst mc, ''CMakeLists.txt''] ?c a = (b', o', e')"
    by (cases "write_step [''modules'', fst mc, ''CMakeLists.txt''] ?c a") auto
  with run have "b' = b" "e' = None" "out = ?ms @ o'"
    by (simp_all add: generate_module_file_def and_then_say)
  with w' write_step_ok [of "[''modules'', fst mc, ''CMakeLists.txt'']" ?c a b o']
  have w: "write_step [''modules'', fst mc, ''CMakeLists.txt''] ?c a = (b, [], None)"
    and o: "out = ?ms"
    by simp_all
  from write_step_ok [OF w] agree_kind [OF t(1) t(2)]
  have "kind_of G [''modules'', fst mc, ''CMakeLists.txt''] = IsFile ?c" by simp
  then have "write_step [''modules'', fst mc, ''CMakeLists.txt''] ?c G = (G, [], None)"
    by (intro write_step_same) simp_all
  with src o show ?thesis
    by (simp add: generate_module_file_def and_then_say)
qed

lemma module_paths_distinct:
  "distinct (map fst modules) \<Longrightarrow>
   distinct (map (\<lambda>mc. [''modules'', fst mc, ''CMakeLists.txt'']) modules)"
  by (induction modules) auto

lemma modules_frame:
  assumes "generate_module_cmake_files modules fs = (fs', out, e)"
  shows "agree (insert [''modules'', ''CMakeLists.txt'']
      ((\<lambda>mc. [''modules'', fst mc, ''CMakeLists.txt'']) ` set modules)) fs fs'"
proof -
  from assms have "and_then
      (write_step [''modules'', ''CMakeLists.txt''] (join newline (umbrella_content modules)) fs)
      (for_each generate_module_file modules) = (fs', out, e)"
    by (simp add: generate_module_cmake_files_def)
  from and_then_cases [OF this] show ?thesis
  proof (elim disjE exE conjE)
    fix o1 e1
    assume "write_step [''modules'', ''CMakeLists.txt''] (join newline (umbrella_content modules)) fs
        = (fs', o1, Some e1)"
    from write_step_frame [OF this] have "agree {[''modules'', ''CMakeLists.txt'']} fs fs'"
      by simp
    then show ?thesis by (rule agree_mono) simp
  next
    fix f1 o1 o2
    assume w: "write_step [''modules'', ''CMakeLists.txt''] (join newline (umbrella_content modules)) fs
        = (f1, o1, None)"
      and r: "for_each generate_module_file modules f1 = (fs', o2, e)"
    from agree_trans [OF write_step_frame [OF w] for_each_frame [OF module_file_frame r]]
    show ?thesis by simp
  qed
qed

lemma modules_replay:
  assumes run: "generate_module_cmake_files modules fs = (F, out, None)"
    and dist: "distinct (map fst modules)"
  shows "generate_module_cmake_files modules F = (F, out, None)"
proof -
  let ?pth = "\<lambda>mc :: string \<times> module_config. [''modules'', fst mc, ''CMakeLists.txt'']"
  let ?c = "join newline (umbrella_content modules)"
  from run have "and_then (write_step [''modules'', ''CMakeLists.txt''] ?c fs)
      (for_each generate_module_file modules) = (F, out, None)"
    by (simp add: generate_module_cmake_files_def)
  from and_then_ok [OF this] obtain f1 o1 o2 where
    w: "write_step [''modules'', ''CMakeLists.txt''] ?c fs = (f1, o1, None)"
    and r: "for_each generate_module_file modules f1 = (F, o2, None)"
    and out: "out = o1 @ o2"
    by blast
  from write_step_ok [OF w] have o1: "o1 = []" and k: "kind_of f1 [''modules'', ''CMakeLists.txt''] = IsFile ?c"
    by simp_all
  have "agree (?pth ` set modules) f1 F"
    using for_each_frame [OF module_file_frame r] .
  from agree_kind [OF this, of "[''modules'', ''CMakeLists.txt'']"] k
  have "kind_of F [''modules'', ''CMakeLists.txt''] = IsFile ?c" by auto
  then have w': "write_step [''modules'', ''CMakeLists.txt''] ?c F = (F, [], None)"
    by (intro write_step_same) simp_all
  have "for_each generate_module_file modules F = (F, o2, None)"
  proof (rule for_each_replay [where pth = ?pth and S = "{}", OF module_file_frame _ _ _ r])
    show "generate_module_file x G = (G, out, None)"
      if "generate_module_file x a = (b, out, None)" "agree T b G" "?pth x \<notin> T"
        "agree (insert (?pth x) T) a G" for x a b out T G
      using that by (rule module_file_replay)
    show "generated (?pth x)" for x by (simp add: generated_def)
    show "distinct (map ?pth modules)" using dist by (rule module_paths_distinct)
    show "agree {} F F" by (rule agree_refl)
  qed simp_all
  with w' show ?thesis
    by (simp add: generate_module_cmake_files_def out o1 and_then_same)
qed

lemma root_replay:
  assumes run: "generate_root_cmakelists options fs = (fs', out, None)"
    and fin: "agree S fs' F" "[''CMakeLists.txt''] \<notin> S"
  shows "generate_root_cmakelists options F = (F, out, None)"
proof -
  from write_step_ok [OF run [unfolded generate_root_cmakelists_def]] agree_kind [OF fin]
  have "out = []" "kind_of F [''CMakeLists.txt''] = IsFile (join newline (root_content options))"
    by simp_all
  then show ?thesis
    unfolding generate_root_cmakelists_def by (simp add: write_step_same)
qed

text \<open>
  Claim C9. When a run of the whole pipeline ends without an exception, a second run on the
  tree it leaves ends without an exception too, prints the same and leaves the tree as it
  found it: every file it writes is written with the text it already holds. The first run
  only adds or replaces files named \<open>CMakeLists.txt\<close> and entries of \<open>cmake\<close>; none of
  them is a source descriptor, a directory, or a file one of the five source patterns
  matches, and a file written keeps its place in the listing of its directory (a new one
  comes last), so collection and source discovery see what they saw before.
\<close>

theorem convert_twice:
  "convert fs = (F, out, None) \<Longrightarrow> convert F = (F, out, None)"
proof -
  assume c: "convert fs = (F, out, None)"
  let ?P = "(\<lambda>pc :: string \<times> platform_config. [''cmake'', ''platform_'' @ fst pc @ ''.cmake''])"
  let ?L = "(\<lambda>lib :: string. [lib, ''CMakeLists.txt''])"
  let ?M = "(\<lambda>mc :: string \<times> module_config. [''modules'', fst mc, ''CMakeLists.txt''])"
  from c obtain opts pcs mods where
    po: "parse_sconstruct fs = Inr opts" and pp: "parse_platform_configs fs = Inr pcs"
    and pm: "parse_modules fs = Inr mods"
    and chain: "and_then (and_then (and_then (and_then (say [Converting] fs)
            (generate_root_cmakelists opts))
            (generate_platform_cmake_files pcs))
            generate_core_cmake_files)
            (generate_module_cmake_files mods) = (F, out, None)"
    by (auto simp: convert_def split: sum.splits)
  from and_then_ok [OF chain] obtain f3 o3 o4 where
    x3: "and_then (and_then (and_then (say [Converting] fs)
            (generate_root_cmakelists opts))
            (generate_platform_cmake_files pcs))
            generate_core_cmake_files = (f3, o3, None)"
    and rm: "generate_module_cmake_files mods f3 = (F, o4, None)" and out: "out = o3 @ o4"
    by blast
  from and_then_ok [OF x3] obtain f2 o2 o3' where
    x2: "and_then (and_then (say [Converting] fs)
            (generate_root_cmakelists opts))
            (generate_platform_cmake_files pcs) = (f2, o2, None)"
    and rc: "generate_core_cmake_files f2 = (f3, o3', None)" and o3: "o3 = o2 @ o3'"
    by blast
  from and_then_ok [OF x2] obtain f1 o1 o2' where
    x1: "and_then (say [Converting] fs) (generate_root_cmakelists opts) = (f1, o1, None)"
    and rp: "generate_platform_cmake_files pcs f1 = (f2, o2', None)" and o2: "o2 = o1 @ o2'"
    by blast
  obtain f1' o0 e0 where rr': "generate_root_cmakelists opts fs = (f1', o0, e0)"
    by (cases "generate_root_cmakelists opts fs") auto
  with x1 have rr: "generate_root_cmakelists opts fs = (f1, o0, None)" and o1: "o1 = [Converting] @ o0"
    by (simp_all add: and_then_say)

  have a1: "agree {[''CMakeLists.txt'']} fs f1"
    using rr unfolding generate_root_cmakelists_def by (rule write_step_frame) simp
  have a2: "agree (insert [''cmake''] (?P ` set pcs)) f1 f2"
    using rp by (rule platform_frame)
  have a3: "agree (?L ` set core_libs) f2 f3"
    using for_each_frame [where pth = ?L, OF core_lib_frame rc [unfolded generate_core_cmake_files_def]] .
  have a4: "agree (insert [''modules'', ''CMakeLists.txt''] (?M ` set mods)) f3 F"
    using rm by (rule modules_frame)
  let ?S4 = "insert [''modules'', ''CMakeLists.txt''] (?M ` set mods)"
  let ?S3 = "?L ` set core_libs \<union> ?S4"
  let ?S2 = "insert [''cmake''] (?P ` set pcs) \<union> ?S3"
  let ?S1 = "{[''CMakeLists.txt'']} \<union> ?S2"
  have b3: "agree ?S3 f2 F" using agree_trans [OF a3 a4] .
  have b2: "agree ?S2 f1 F" using agree_trans [OF a2 b3] .
  have b1: "agree ?S1 fs F" using agree_trans [OF a1 b2] .
  have g4: "\<forall>p\<in>?S4. generated p" by (auto simp: generated_def)
  have g3: "\<forall>p\<in>?S3. generated p" by (auto simp: generated_def)
  have g2: "\<forall>p\<in>?S2. generated p" by (auto simp: generated_def)
  have g1: "\<forall>p\<in>?S1. generated p" by (auto simp: generated_def)

  have po': "parse_sconstruct F = Inr opts"
    using parse_sconstruct_agree [OF b1 g1] po by simp
  have pp': "parse_platform_configs F = Inr pcs"
    using parse_platform_configs_agree [OF b1 g1] pp by simp
  have pm': "parse_modules F = Inr mods"
    using parse_modules_agree [OF b1 g1] pm by simp

  have dp: "distinct (map fst pcs)"
    using pp platform_loop_distinct [of fs "glob_star fs [''platform'']" "[]" pcs]
    by (simp add: parse_platform_configs_def)
  have dm: "distinct (map fst mods)"
    using pm modules_loop_distinct [of fs "glob_star fs [''modules'']" "[]" mods]
    by (simp add: parse_modules_def)

  have r1: "generate_root_cmakelists opts F = (F, o0, None)"
    using rr b2 by (rule root_replay) auto
  have r2: "generate_platform_cmake_files pcs F = (F, o2', None)"
    using rp dp b3 g3
  proof (rule platform_replay)
    show "[''cmake''] \<notin> ?S3" by auto
    show "?S3 \<inter> ?P ` set pcs = {}" by auto
  qed
  have r3: "generate_core_cmake_files F = (F, o3', None)"
    using rc a4 g4
  proof (rule core_replay)
    show "?S4 \<inter> ?L ` set core_libs = {}" by (auto simp: core_libs_def)
  qed
  have r4: "generate_module_cmake_files mods F = (F, o4, None)"
    using rm dm by (rule modules_replay)
  have s1: "and_then (say [Converting] F) (generate_root_cmakelists opts) = (F, o1, None)"
    by (simp add: and_then_say r1 o1)
  note s2 = and_then_same [where f = "generate_platform_cmake_files pcs", OF s1 r2]
  note s3 = and_then_same [where f = generate_core_cmake_files, OF s2 r3]
  note s4 = and_then_same [where f = "generate_module_cmake_files mods", OF s3 r4]
  show ?thesis
    by (simp add: convert_def po' pp' pm' s4 out o3 o2)
qed

theorem convert_twice_witness:
  "snd (snd (convert example_tree)) = None
   \<and> convert (fst (convert example_tree)) = convert example_tree"
proof -
  have n: "snd (snd (convert example_tree)) = None"
    by code_simp
  then have "convert example_tree = (fst (convert example_tree), fst (snd (convert example_tree)), None)"
    by (metis prod.collapse)
  from convert_twice [OF this] this n show ?thesis by simp
qed


section \<open>The platform files\<close>

lemma kind_of_file: "kind_of fs p = IsFile c \<Longrightarrow> lookup fs p = Some (File c)"
  by (auto simp: kind_of_def split: option.splits node.splits)

text \<open>
  After a loop that ends without an exception, over items with distinct paths, each path holds
  what the body left there: the later passes do not touch it.
\<close>

lemma for_each_written:
  assumes frame: "\<And>x a b out e. body x a = (b, out, e) \<Longrightarrow> agree {pth x} a b"
    and post: "\<And>x a b out. body x a = (b, out, None) \<Longrightarrow> kind_of b (pth x) = K x"
  shows "for_each body xs fs = (fs', out, None) \<Longrightarrow> distinct (map pth xs) \<Longrightarrow> y \<in> set xs \<Longrightarrow>
    kind_of fs' (pth y) = K y"
proof (induction xs arbitrary: fs out)
  case Nil
  then show ?case by simp
next
  case (Cons x xs)
  from Cons.prems(1) have "and_then (body x fs) (for_each body xs) = (fs', out, None)" by simp
  from and_then_ok [OF this] obtain f1 o1 o2 where
    b: "body x fs = (f1, o1, None)" and r: "for_each body xs f1 = (fs', o2, None)"
    by blast
  show ?case
  proof (cases "y \<in> set xs")
    case True
    from Cons.IH [OF r _ True] Cons.prems(2) show ?thesis by simp
  next
    case False
    with Cons.prems(3) have y: "y = x" by simp
    from Cons.prems(2) have "pth x \<notin> pth ` set xs" by simp
    from agree_kind [OF for_each_frame [OF frame r] this] post [OF b] y show ?thesis by simp
  qed
qed

lemma platform_file_written:
  assumes "generate_platform_cmake_files configs fs = (fs', out, None)"
    "distinct (map fst configs)" "(platform, config) \<in> set configs"
  shows "lookup fs' [''cmake'', ''platform_'' @ platform @ ''.cmake'']
    = Some (File (join newline (platform_content platform config)))"
proof -
  let ?pth = "\<lambda>pc :: string \<times> platform_config. [''cmake'', ''platform_'' @ fst pc @ ''.cmake'']"
  let ?K = "\<lambda>pc :: string \<times> platform_config. IsFile (join newline (platform_content (fst pc) (snd pc)))"
  from assms(1) obtain fs1 where
    r: "for_each generate_platform_file configs fs1 = (fs', out, None)"
    by (auto simp: generate_platform_cmake_files_def split: sum.splits)
  have "kind_of fs' (?pth (platform, config)) = ?K (platform, config)"
  proof (rule for_each_written [where pth = ?pth and K = ?K, OF platform_file_frame _ r _ assms(3)])
    show "kind_of b (?pth x) = ?K x" if "generate_platform_file x a = (b, out, None)" for x a b out
      using that unfolding generate_platform_file_def by (auto dest: write_step_ok)
    show "distinct (map ?pth configs)" using assms(2) by (rule platform_paths_distinct)
  qed
  then have "kind_of fs' [''cmake'', ''platform_'' @ platform @ ''.cmake'']
      = IsFile (join newline (platform_content platform config))" by simp
  then show ?thesis by (rule kind_of_file)
qed

lemma platform_content_blocks:
  "platform_content platform config =
     [''# Platform configuration for '' @ platform, [], ''# Compiler flags'']
     @ rendered_block ''add_compile_options('' (p_flags config) [[]]
     @ rendered_block ''add_compile_definitions('' (p_defines config) [[]]
     @ rendered_block ''target_link_libraries(godot PRIVATE'' (p_libs config) []"
  by (simp add: platform_content_def rendered_block_def)

text \<open>
  Claim C7. A block is an opening line, one line per item indented by four spaces, and a
  closing parenthesis; the compile-options and compile-definitions blocks are followed by an
  empty line. For every platform configuration the lines of the platform file are the three
  header lines followed, in this order, by the compile-options block of \<open>flags\<close>, the
  compile-definitions block of \<open>defines\<close> and the link-libraries block of \<open>libs\<close>, where the
  block of an empty list is no line at all. So the opening line of a block is in the file
  exactly when its list is not empty, and with all three empty the file is its three header
  lines. When the platform emitter ends without an exception, the file
  \<open>cmake/platform_<name>.cmake\<close> of every collected platform holds these lines joined by line
  breaks (the keys of the platforms mapping are distinct).
\<close>

theorem platform_blocks:
  "(''add_compile_options('' \<in> set (platform_content platform config)) = (p_flags config \<noteq> [])
   \<and> (''add_compile_definitions('' \<in> set (platform_content platform config)) = (p_defines config \<noteq> [])
   \<and> (''target_link_libraries(godot PRIVATE'' \<in> set (platform_content platform config)) = (p_libs config \<noteq> [])
   \<and> (p_flags config = [] \<and> p_defines config = [] \<and> p_libs config = [] \<longrightarrow>
        platform_content platform config =
          [''# Platform configuration for '' @ platform, [], ''# Compiler flags''])
   \<and> platform_content platform config =
        [''# Platform configuration for '' @ platform, [], ''# Compiler flags'']
        @ rendered_block ''add_compile_options('' (p_flags config) [[]]
        @ rendered_block ''add_compile_definitions('' (p_defines config) [[]]
        @ rendered_block ''target_link_libraries(godot PRIVATE'' (p_libs config) []
   \<and> (generate_platform_cmake_files configs fs = (fs', out, None) \<and> distinct (map fst configs)
        \<and> (platform, config) \<in> set configs \<longrightarrow>
        lookup fs' [''cmake'', ''platform_'' @ platform @ ''.cmake'']
          = Some (File (join newline (platform_content platform config))))"
proof (intro conjI impI)
  show "platform_content platform config =
        [''# Platform configuration for '' @ platform, [], ''# Compiler flags'']
        @ rendered_block ''add_compile_options('' (p_flags config) [[]]
        @ rendered_block ''add_compile_definitions('' (p_defines config) [[]]
        @ rendered_block ''target_link_libraries(godot PRIVATE'' (p_libs config) []"
    by (rule platform_content_blocks)
next
  assume "generate_platform_cmake_files configs fs = (fs', out, None) \<and> distinct (map fst configs)
        \<and> (platform, config) \<in> set configs"
  then show "lookup fs' [''cmake'', ''platform_'' @ platform @ ''.cmake'']
          = Some (File (join newline (platform_content platform config)))"
    by (intro platform_file_written [of configs fs fs' out]) simp_all
qed (simp_all add: platform_content_def platform_marker_not_indented)

theorem platform_blocks_witness:
  "platform_content ''linuxbsd''
     \<lparr>p_name = ''linuxbsd'', p_defines = [], p_libs = [], p_includes = [], p_flags = []\<rparr>
     = [''# Platform configuration for linuxbsd'', [], ''# Compiler flags'']
   \<and> platform_content ''linuxbsd''
     \<lparr>p_name = ''linuxbsd'', p_defines = [], p_libs = [''GL'', ''X11''], p_includes = [], p_flags = [''-O2'']\<rparr>
     = [''# Platform configuration for linuxbsd'', [], ''# Compiler flags'',
        ''add_compile_options('', ''    -O2'', '')'', [],
        ''target_link_libraries(godot PRIVATE'', ''    GL'', ''    X11'', '')'']
   \<and> generate_platform_cmake_files
       [(''linuxbsd'', \<lparr>p_name = ''linuxbsd'', p_defines = [], p_libs = [''GL'', ''X11''], p_includes = [], p_flags = [''-O2'']\<rparr>)]
       (Dir [])
     = (Dir [(''cmake'', Dir [(''platform_linuxbsd.cmake'',
          File ''# Platform configuration for linuxbsd\<newline>\<newline># Compiler flags\<newline>add_compile_options(\<newline>    -O2\<newline>)\<newline>\<newline>target_link_libraries(godot PRIVATE\<newline>    GL\<newline>    X11\<newline>)'')])],
        [], None)
   \<and> lookup (Dir [(''cmake'', Dir [(''platform_linuxbsd.cmake'',
          File ''# Platform configuration for linuxbsd\<newline>\<newline># Compiler flags\<newline>add_compile_options(\<newline>    -O2\<newline>)\<newline>\<newline>target_link_libraries(godot PRIVATE\<newline>    GL\<newline>    X11\<newline>)'')])])
       [''cmake'', ''platform_linuxbsd.cmake'']
     = Some (File (join newline (platform_content ''linuxbsd''
         \<lparr>p_name = ''linuxbsd'', p_defines = [], p_libs = [''GL'', ''X11''], p_includes = [], p_flags = [''-O2'']\<rparr>)))"
proof -
  have g: "generate_platform_cmake_files
       [(''linuxbsd'', \<lparr>p_name = ''linuxbsd'', p_defines = [], p_libs = [''GL'', ''X11''], p_includes = [], p_flags = [''-O2'']\<rparr>)]
       (Dir [])
     = (Dir [(''cmake'', Dir [(''platform_linuxbsd.cmake'',
          File ''# Platform configuration for linuxbsd\<newline>\<newline># Compiler flags\<newline>add_compile_options(\<newline>    -O2\<newline>)\<newline>\<newline>target_link_libraries(godot PRIVATE\<newline>    GL\<newline>    X11\<newline>)'')])],
        [], None)"
    by code_simp
  have r: "rendered_block ''add_compile_options('' [''-O2''] [[]] = [''add_compile_options('', ''    -O2'', '')'', []]
    \<and> rendered_block ''target_link_libraries(godot PRIVATE'' [''GL'', ''X11''] []
        = [''target_link_libraries(godot PRIVATE'', ''    GL'', ''    X11'', '')'']
    \<and> rendered_block ''add_compile_definitions('' [] [[]] = []"
    by code_simp
  from platform_blocks [of "''linuxbsd''"
      "\<lparr>p_name = ''linuxbsd'', p_defines = [], p_libs = [], p_includes = [], p_flags = []\<rparr>"]
    platform_blocks [of "''linuxbsd''"
      "\<lparr>p_name = ''linuxbsd'', p_defines = [], p_libs = [''GL'', ''X11''], p_includes = [], p_flags = [''-O2'']\<rparr>"
      "[(''linuxbsd'', \<lparr>p_name = ''linuxbsd'', p_defines = [], p_libs = [''GL'', ''X11''], p_includes = [], p_flags = [''-O2'']\<rparr>)]"
      "Dir []"
      "Dir [(''cmake'', Dir [(''platform_linuxbsd.cmake'',
          File ''# Platform configuration for linuxbsd\<newline>\<newline># Compiler flags\<newline>add_compile_options(\<newline>    -O2\<newline>)\<newline>\<newline>target_link_libraries(godot PRIVATE\<newline>    GL\<newline>    X11\<newline>)'')])]"
      "[]"]
    g r
  show ?thesis by simp
qed

end
